theory Spec2Isabelle
  imports Complex_Main "HOL-Library.Log_Nat"
begin

unbundle bit_operations_syntax

section \<open>Sobol sequences: the generator of \<open>pygsa/sampling/sobol_sequence.py\<close>\<close>

text \<open>
  The class \<open>SobolSample\<close> is embedded method by method. Conventions of the embedding:

  \<^item> Python integers are \<open>int\<close>. The entries of the numpy arrays \<open>V\<close> and \<open>Y\<close> (dtype
    \<open>int\<close>, 64 bits) are \<open>int\<close> values of the range \<open>[-2^63, 2^63)\<close> (lemma
    \<open>generate_V_int64\<close>): storing a Python integer outside that range raises
    \<open>OverflowError\<close>, and the shift \<open><<\<close> of a 64-bit integer wraps around (\<open>shl64\<close>). XOR,
    \<open>>>\<close> and the product with a bit never leave the range.
  \<^item> \<open>int(math.ceil(math.log(n_samples) / math.log(2)))\<close> is computed in double precision
    by the C library, which the embedding cannot compute. Its value is the parameter \<open>l\<close>
    of \<open>py_init\<close>. It is \<open>\<lceil>log\<^sub>2 n\<rceil>\<close> (\<open>ceillog2\<close>) wherever the rounding is harmless, but for
    instance one more at \<open>n = 2^29\<close> and one less at \<open>n = 2^49 + 1\<close>. Theorems that need every
    row index to exist assume \<open>n_samples \<le> 2 ^ L\<close>.
  \<^item> The samples are doubles: \<open>Y[i] / math.pow(2, scale)\<close> converts the 64-bit integer to
    a double, rounding to 53 bits, to nearest and ties to even (\<open>round53\<close>), and divides by
    a power of two, which is exact. The sample is the rational
    \<open>of_int (round53 y) / 2 powi scale\<close>. (\<open>math.pow(2, scale)\<close> is finite up to
    \<open>scale = 1023\<close>; wherever a loop body gets past its row lookup, \<open>L \<ge> 1\<close> and so
    \<open>scale \<le> 63\<close>.)
  \<^item> The module \<open>directions\<close> is not part of the sources at hand. Its table is a
    parameter: a list of rows \<open>[a, m\<^sub>1, \<dots>, m\<^sub>s]\<close>, the row of index \<open>i\<close> serving column
    \<open>i + 1\<close>; \<open>len(directions.data)\<close> is its length and \<open>directions[i]\<close> its row \<open>i\<close>.
  \<^item> numpy arrays are objects of an explicit heap, since \<open>__next__\<close> hands out a reference
    to the accumulator \<open>self.Y\<close> and \<open>generate_all_samples\<close> updates an array in place.
  \<^item> A raised exception is \<open>Inl\<close> of the error together with the state it leaves; a loop
    that runs forever is the value \<open>None\<close>.
\<close>

subsection \<open>Errors\<close>

datatype error = ValueError string | IndexError | StopIteration | OverflowError

definition InsufficientDimensions :: error where
  "InsufficientDimensions = ValueError ''Error in Sobol sequence: not enough dimensions''"

definition InsufficientBits :: error where
  "InsufficientBits = ValueError ''Error in Sobol sequence: not enough bits''"

definition MathDomainError :: error where
  "MathDomainError = ValueError ''math domain error''"

definition NegativeShift :: error where
  "NegativeShift = ValueError ''negative shift count''"

subsection \<open>64-bit integers and doubles\<close>

text \<open>The values a numpy \<open>int64\<close> holds.\<close>

definition in_int64 :: "int \<Rightarrow> bool" where
  "in_int64 x = (- (2 ^ 63) \<le> x \<and> x < 2 ^ 63)"

text \<open>\<open>x << k\<close> on a numpy \<open>int64\<close>: the bits shifted beyond bit 63 are lost.\<close>

definition shl64 :: "int \<Rightarrow> nat \<Rightarrow> int" where
  "shl64 x k = signed_take_bit 63 (push_bit k x)"

text \<open>The number of binary digits of a positive integer (Python's \<open>int.bit_length\<close>).\<close>

function bit_length :: "int \<Rightarrow> nat" where
  "bit_length a = (if a \<le> 0 then 0 else Suc (bit_length (a div 2)))"
  by pat_completeness auto
termination
  by (relation "measure nat") auto

declare bit_length.simps [simp del]

text \<open>
  The conversion of an integer to a double (exact below \<open>2^53\<close> in magnitude, otherwise
  the 53 leading bits rounded to nearest, ties to even), as an integer: with \<open>e\<close> the
  number of bits dropped, \<open>q\<close> the kept bits and \<open>r\<close> the dropped ones.
\<close>

definition round53 :: "int \<Rightarrow> int" where
  "round53 y =
     (let a = \<bar>y\<bar>; e = bit_length a - 53; q = a div 2 ^ e; r = a mod 2 ^ e in
      if 2 * r < 2 ^ e \<or> (2 * r = 2 ^ e \<and> even q) then sgn y * (q * 2 ^ e)
      else sgn y * ((q + 1) * 2 ^ e))"

text \<open>\<open>float(y / math.pow(2, scale))\<close> for a 64-bit integer \<open>y\<close>.\<close>

definition sample_value :: "int \<Rightarrow> int \<Rightarrow> rat" where
  "sample_value sc y = of_int (round53 y) / 2 powi sc"

subsection \<open>The heap of numpy arrays\<close>

type_synonym addr = nat

datatype ndarray =
    IntArray "int list"
  | IntMatrix "int list list"
  | FloatArray "rat list"
  | FloatMatrix "rat list list"

type_synonym heap = "ndarray list"

definition alloc :: "ndarray \<Rightarrow> heap \<Rightarrow> addr \<times> heap" where
  "alloc a h = (length h, h @ [a])"

definition int_array :: "heap \<Rightarrow> addr \<Rightarrow> int list" where
  "int_array h a = (case h ! a of IntArray xs \<Rightarrow> xs | _ \<Rightarrow> [])"

definition int_matrix :: "heap \<Rightarrow> addr \<Rightarrow> int list list" where
  "int_matrix h a = (case h ! a of IntMatrix M \<Rightarrow> M | _ \<Rightarrow> [])"

definition float_array :: "heap \<Rightarrow> addr \<Rightarrow> rat list" where
  "float_array h a = (case h ! a of FloatArray xs \<Rightarrow> xs | _ \<Rightarrow> [])"

definition float_matrix :: "heap \<Rightarrow> addr \<Rightarrow> rat list list" where
  "float_matrix h a = (case h ! a of FloatMatrix M \<Rightarrow> M | _ \<Rightarrow> [])"

text \<open>The numbers a caller sees when it reads the array behind a reference.\<close>

definition read_array :: "heap \<Rightarrow> addr \<Rightarrow> rat list" where
  "read_array h a =
     (case h ! a of IntArray xs \<Rightarrow> map of_int xs | FloatArray xs \<Rightarrow> xs | _ \<Rightarrow> [])"

definition read_matrix :: "heap \<Rightarrow> addr \<Rightarrow> rat list list" where
  "read_matrix h a =
     (case h ! a of IntMatrix M \<Rightarrow> map (map of_int) M | FloatMatrix M \<Rightarrow> M | _ \<Rightarrow> [])"

subsection \<open>The generator object\<close>

record SobolSample =
  n_samples :: int
  n_dimensions :: nat
  scale :: int
  L :: nat
  current :: int
  Y :: addr
  V :: addr

type_synonym state = "SobolSample \<times> heap"

subsection \<open>\<open>index_of_least_significant_zero_bit\<close>\<close>

text \<open>
  \<^verbatim>\<open>index = 1
  while (value & 1) != 0:
      value >>= 1
      index += 1
  return index\<close>
  On Python integers \<open>>>\<close> is the arithmetic shift, \<open>drop_bit\<close> on \<open>int\<close>.
\<close>

partial_function (option) lszb_loop :: "int \<Rightarrow> int \<Rightarrow> int option" where
  "lszb_loop val index =
     (if val AND 1 \<noteq> 0 then lszb_loop (drop_bit 1 val) (index + 1) else Some index)"

declare lszb_loop.simps [code]

definition index_of_least_significant_zero_bit :: "int \<Rightarrow> int option" where
  "index_of_least_significant_zero_bit val = lszb_loop val 1"

subsection \<open>\<open>generate_V\<close>\<close>

definition set_cell :: "int list list \<Rightarrow> nat \<Rightarrow> nat \<Rightarrow> int \<Rightarrow> int list list" where
  "set_cell M j i v = M[j := (M ! j)[i := v]]"

definition cell :: "int list list \<Rightarrow> nat \<Rightarrow> nat \<Rightarrow> int" where
  "cell M j i = M ! j ! i"

text \<open>
  \<open>V[1:n+1, c] = [m[j] << (scale - j) for j in range(1, n + 1)]\<close>, with \<open>m\<close> a numpy
  array of 64-bit integers. Where the program evaluates it the shift count is in
  \<open>0 .. 62\<close>: column 0 has been stored by then, so \<open>1 \<le> j \<le> L \<le> scale \<le> 63\<close>.
\<close>

definition seed_column :: "int list \<Rightarrow> int \<Rightarrow> nat \<Rightarrow> nat \<Rightarrow> int list list \<Rightarrow> int list list" where
  "seed_column m sc n c M =
     fold (\<lambda>j M. set_cell M j c (shl64 (m ! j) (nat (sc - int j)))) [1..<Suc n] M"

text \<open>
  The body of \<open>for j in range(s + 1, L + 1)\<close>:
  \<^verbatim>\<open>V[j, c] = V[j - s, c] ^ (V[j - s, c] >> s)
  for k in range(1, s):
      V[j, c] ^= ((m[0] >> (s - 1 - k)) & 1) * V[j - k][c]\<close>
\<close>

definition recur_row :: "int list \<Rightarrow> nat \<Rightarrow> nat \<Rightarrow> nat \<Rightarrow> int list list \<Rightarrow> int list list" where
  "recur_row m s c j M =
     fold (\<lambda>k M. set_cell M j c
              (cell M j c XOR (drop_bit (s - 1 - k) (m ! 0) AND 1) * cell M (j - k) c))
       [1..<s]
       (set_cell M j c (cell M (j - s) c XOR drop_bit s (cell M (j - s) c)))"

text \<open>The body of \<open>for i in range(n_dimensions - 1)\<close> for a non-empty row \<open>m\<close>, \<open>c = i + 1\<close>.\<close>

definition fill_column :: "int list \<Rightarrow> int \<Rightarrow> nat \<Rightarrow> nat \<Rightarrow> int list list \<Rightarrow> int list list" where
  "fill_column m sc l c M =
     (let s = length m - 1 in
      if l \<le> s then seed_column m sc l c M
      else fold (recur_row m s c) [Suc s..<Suc l] (seed_column m sc s c M))"

text \<open>
  The loop over the columns. \<open>directions[i]\<close> raises \<open>IndexError\<close> out of range, and
  \<open>np.array(directions[i], dtype=int)\<close> raises \<open>OverflowError\<close> on an entry that is no
  64-bit integer. An empty row gives \<open>s = -1\<close>: the branch \<open>L <= s\<close> is not taken, the
  seeding assigns an empty slice, and the recurrence \<open>for j in range(0, L + 1)\<close> reads
  \<open>V[j + 1, c]\<close>, which is out of range at \<open>j = L\<close>: \<open>IndexError\<close>.
\<close>

fun columns_loop :: "int list list \<Rightarrow> int \<Rightarrow> nat \<Rightarrow> nat list \<Rightarrow> int list list
    \<Rightarrow> error + int list list" where
  "columns_loop directions sc l [] M = Inr M"
| "columns_loop directions sc l (i # is) M =
     (if length directions \<le> i then Inl IndexError
      else let m = directions ! i in
        if \<not> list_all in_int64 m then Inl OverflowError
        else if m = [] then Inl IndexError
        else columns_loop directions sc l is (fill_column m sc l (i + 1) M))"

text \<open>
  \<^verbatim>\<open>V = np.zeros([L + 1, n_dimensions], dtype=int)
  V[1:, 0] = [1 << (self.scale - j) for j in range(1, L + 1)]\<close>
  The list is built first: \<open>1 << (scale - j)\<close> raises \<open>ValueError\<close> on a negative count
  (never from \<open>__init__\<close>, which has checked \<open>L \<le> scale\<close>). The assignment then indexes
  column 0, which does not exist when \<open>n_dimensions = 0\<close>, and stores the Python integers
  as 64-bit ones, which raises \<open>OverflowError\<close> for \<open>2 ^ (scale - 1) \<ge> 2 ^ 63\<close>.
\<close>

definition generate_V :: "int list list \<Rightarrow> int \<Rightarrow> nat \<Rightarrow> nat \<Rightarrow> error + int list list" where
  "generate_V directions sc l d =
     (if 1 \<le> l \<and> sc < int l then Inl NegativeShift
      else if d = 0 then Inl IndexError
      else if 1 \<le> l \<and> 64 \<le> sc then Inl OverflowError
      else columns_loop directions sc l [0..<d - 1]
             (fold (\<lambda>j M. set_cell M j 0 (push_bit (nat (sc - int j)) 1)) [1..<Suc l]
                (replicate (Suc l) (replicate d 0))))"

subsection \<open>\<open>__init__\<close>\<close>

text \<open>
  \<open>l\<close> is the value of \<open>int(math.ceil(math.log(n_samples) / math.log(2)))\<close>;
  \<open>math.log\<close> raises \<open>ValueError\<close> for \<open>n_samples \<le> 0\<close>.
\<close>

definition py_init :: "int list list \<Rightarrow> nat \<Rightarrow> int \<Rightarrow> nat \<Rightarrow> int \<Rightarrow> heap
    \<Rightarrow> error + state" where
  "py_init directions l n d sc h =
     (if d > length directions + 1 then Inl InsufficientDimensions
      else if n \<le> 0 then Inl MathDomainError
      else
        if int l > sc then Inl InsufficientBits
        else let (y, h1) = alloc (IntArray (replicate d 0)) h in
          case generate_V directions sc l d of
            Inl e \<Rightarrow> Inl e
          | Inr M \<Rightarrow>
              let (v, h2) = alloc (IntMatrix M) h1 in
              Inr (\<lparr>n_samples = n, n_dimensions = d, scale = sc, L = l,
                    current = 0, Y = y, V = v\<rparr>, h2))"

subsection \<open>\<open>generate_sample\<close> and \<open>__next__\<close>\<close>

text \<open>\<open>V[r, c]\<close> with numpy's indexing: a negative row index counts from the end.\<close>

definition matrix_get :: "int list list \<Rightarrow> int \<Rightarrow> nat \<Rightarrow> error + int" where
  "matrix_get M r c =
     (let n = int (length M); r' = (if r < 0 then n + r else r) in
      if 0 \<le> r' \<and> r' < n \<and> c < length (M ! nat r') then Inr (M ! nat r' ! c)
      else Inl IndexError)"

definition matrix_row :: "int list list \<Rightarrow> int \<Rightarrow> error + int list" where
  "matrix_row M r =
     (let n = int (length M); r' = (if r < 0 then n + r else r) in
      if 0 \<le> r' \<and> r' < n then Inr (M ! nat r') else Inl IndexError)"

text \<open>
  The loop of \<open>generate_sample\<close>, over \<open>i\<close> in \<open>range(n_dimensions)\<close>:
  \<^verbatim>\<open>self.Y[i] ^= self.V[self.index_of_least_significant_zero_bit(self.current - 1), i]
  sample_one[i] = float(self.Y[i] / math.pow(2, self.scale))\<close>
\<close>

fun sample_loop :: "SobolSample \<Rightarrow> addr \<Rightarrow> nat list \<Rightarrow> heap
    \<Rightarrow> ((error + unit) \<times> heap) option" where
  "sample_loop g sample_one [] h = Some (Inr (), h)"
| "sample_loop g sample_one (i # is) h =
     (case index_of_least_significant_zero_bit (current g - 1) of
        None \<Rightarrow> None
      | Some idx \<Rightarrow>
          (case matrix_get (int_matrix h (V g)) idx i of
             Inl e \<Rightarrow> Some (Inl e, h)
           | Inr v \<Rightarrow>
               let ys = int_array h (Y g);
                   h1 = h[Y g := IntArray (ys[i := ys ! i XOR v])];
                   h2 = h1[sample_one := FloatArray ((float_array h1 sample_one)
                          [i := sample_value (scale g) (int_array h1 (Y g) ! i)])]
               in sample_loop g sample_one is h2))"

definition generate_sample :: "state \<Rightarrow> ((error + addr) \<times> state) option" where
  "generate_sample = (\<lambda>(g, h).
     let (sample_one, h1) = alloc (FloatArray (replicate (n_dimensions g) 0)) h in
     case sample_loop g sample_one [0..<n_dimensions g] h1 of
       None \<Rightarrow> None
     | Some (Inl e, h2) \<Rightarrow> Some (Inl e, (g, h2))
     | Some (Inr u, h2) \<Rightarrow> Some (Inr sample_one, (g\<lparr>current := current g + 1\<rparr>, h2)))"

text \<open>\<open>__next__\<close>; the first call returns the object \<open>self.Y\<close> itself.\<close>

definition py_next :: "state \<Rightarrow> ((error + addr) \<times> state) option" where
  "py_next = (\<lambda>(g, h).
     if current g > n_samples g - 1 then Some (Inl StopIteration, (g, h))
     else if current g = 0 then Some (Inr (Y g), (g\<lparr>current := 1\<rparr>, h))
     else generate_sample (g, h))"

subsection \<open>\<open>generate_all_samples\<close>\<close>

text \<open>
  The local \<open>X\<close> starts as the Python integer 0. \<open>X ^= row\<close> on an integer builds a new
  array and rebinds \<open>X\<close>; on an array it updates that array in place.
\<close>

datatype pyval = PyInt int | Ref addr

fun ixor :: "pyval \<Rightarrow> int list \<Rightarrow> heap \<Rightarrow> addr \<times> heap" where
  "ixor (PyInt x) row h = alloc (IntArray (map (\<lambda>v. x XOR v) row)) h"
| "ixor (Ref a) row h = (a, h[a := IntArray (map2 (XOR) (int_array h a) row)])"

text \<open>
  The loop of \<open>generate_all_samples\<close>, over \<open>j\<close> in \<open>range(1, n_samples)\<close>:
  \<^verbatim>\<open>X ^= V[self.index_of_least_significant_zero_bit(j - 1)]
  sample_all[j][:] = [float(x / math.pow(2, self.scale)) for x in X]\<close>
\<close>

fun all_loop :: "SobolSample \<Rightarrow> addr \<Rightarrow> nat list \<Rightarrow> pyval \<Rightarrow> heap
    \<Rightarrow> ((error + unit) \<times> heap) option" where
  "all_loop g sample_all [] X h = Some (Inr (), h)"
| "all_loop g sample_all (j # js) X h =
     (case index_of_least_significant_zero_bit (int j - 1) of
        None \<Rightarrow> None
      | Some idx \<Rightarrow>
          (case matrix_row (int_matrix h (V g)) idx of
             Inl e \<Rightarrow> Some (Inl e, h)
           | Inr row \<Rightarrow>
               let (x, h1) = ixor X row h;
                   h2 = h1[sample_all := FloatMatrix ((float_matrix h1 sample_all)
                          [j := map (sample_value (scale g)) (int_array h1 x)])]
               in all_loop g sample_all js (Ref x) h2))"

definition generate_all_samples :: "state \<Rightarrow> ((error + addr) \<times> state) option" where
  "generate_all_samples = (\<lambda>(g, h).
     let (sample_all, h1) =
           alloc (FloatMatrix (replicate (nat (n_samples g)) (replicate (n_dimensions g) 0))) h in
     case all_loop g sample_all [1..<nat (n_samples g)] (PyInt 0) h1 of
       None \<Rightarrow> None
     | Some (Inl e, h2) \<Rightarrow> Some (Inl e, (g, h2))
     | Some (Inr u, h2) \<Rightarrow> Some (Inr sample_all, (g, h2)))"

subsection \<open>Callers\<close>

text \<open>
  \<open>calls k\<close> invokes \<open>__next__\<close> \<open>k\<close> times on the same generator and records what each
  call returned or raised; the caller keeps the references it was given.
\<close>

fun calls :: "nat \<Rightarrow> state \<Rightarrow> ((error + addr) list \<times> state) option" where
  "calls 0 s = Some ([], s)"
| "calls (Suc k) s =
     (case py_next s of
        None \<Rightarrow> None
      | Some (r, s') \<Rightarrow>
          (case calls k s' of
             None \<Rightarrow> None
           | Some (rs, s'') \<Rightarrow> Some (r # rs, s'')))"

text \<open>
  \<open>snapshots k\<close> does the same, but reads every returned array at the moment it is
  returned (a caller that consumes or copies each sample before asking for the next).
\<close>

fun snapshots :: "nat \<Rightarrow> state \<Rightarrow> ((error + rat list) list \<times> state) option" where
  "snapshots 0 s = Some ([], s)"
| "snapshots (Suc k) s =
     (case py_next s of
        None \<Rightarrow> None
      | Some (r, s') \<Rightarrow>
          (case snapshots k s' of
             None \<Rightarrow> None
           | Some (rs, s'') \<Rightarrow> Some (map_sum id (read_array (snd s')) r # rs, s'')))"

text \<open>
  With \<open>l\<close> the value the constructor computes for \<open>L\<close>.
  \<open>sequential_matrix\<close>: a fresh generator, \<open>n_samples\<close> calls of \<open>__next__\<close> collected in a
  list, the list read afterwards (\<open>np.array(list(SobolSample(n, d, scale)))\<close>).
  \<open>bulk_matrix\<close>: a fresh generator and one call of \<open>generate_all_samples\<close>.
\<close>

definition sequential_matrix :: "int list list \<Rightarrow> nat \<Rightarrow> int \<Rightarrow> nat \<Rightarrow> int
    \<Rightarrow> (error + (error + rat list) list) option" where
  "sequential_matrix directions l n d sc =
     (case py_init directions l n d sc [] of
        Inl e \<Rightarrow> Some (Inl e)
      | Inr s0 \<Rightarrow>
          (case calls (nat n) s0 of
             None \<Rightarrow> None
           | Some (rs, (g, h)) \<Rightarrow> Some (Inr (map (map_sum id (read_array h)) rs))))"

definition bulk_matrix :: "int list list \<Rightarrow> nat \<Rightarrow> int \<Rightarrow> nat \<Rightarrow> int
    \<Rightarrow> (error + rat list list) option" where
  "bulk_matrix directions l n d sc =
     (case py_init directions l n d sc [] of
        Inl e \<Rightarrow> Some (Inl e)
      | Inr s0 \<Rightarrow>
          (case generate_all_samples s0 of
             None \<Rightarrow> None
           | Some (Inl e, s) \<Rightarrow> Some (Inl e)
           | Some (Inr a, (g, h)) \<Rightarrow> Some (Inr (read_matrix h a))))"

text \<open>The states a generator goes through under its public protocol.\<close>

inductive reachable :: "int list list \<Rightarrow> state \<Rightarrow> bool" for directions where
  reachable_init: "py_init directions l n d sc h = Inr s \<Longrightarrow> reachable directions s"
| reachable_next: "reachable directions s \<Longrightarrow> py_next s = Some (r, s') \<Longrightarrow> reachable directions s'"
| reachable_bulk:
    "reachable directions s \<Longrightarrow> generate_all_samples s = Some (r, s') \<Longrightarrow> reachable directions s'"

subsection \<open>Specification-side notions\<close>

text \<open>A matrix of \<open>r\<close> rows and \<open>d\<close> columns.\<close>

definition dims :: "int list list \<Rightarrow> nat \<Rightarrow> nat \<Rightarrow> bool" where
  "dims M r d = (length M = r \<and> (\<forall>row\<in>set M. length row = d))"

text \<open>
  The right-hand side of the recurrence as the specification words it: \<open>V[j-s,i]\<close> XOR
  \<open>V[j-s,i] >> s\<close>, further XORed, for \<open>k = 1 .. s-1\<close>, with bit \<open>s-1-k\<close> of \<open>m[0]\<close> times
  \<open>V[j-k,i]\<close>.
\<close>

definition recurrence :: "int list list \<Rightarrow> int list \<Rightarrow> nat \<Rightarrow> nat \<Rightarrow> nat \<Rightarrow> int" where
  "recurrence M m s i j =
     fold (\<lambda>k acc. acc XOR of_bool (bit (m ! 0) (s - 1 - k)) * (M ! (j - k) ! i)) [1..<s]
       (M ! (j - s) ! i XOR drop_bit s (M ! (j - s) ! i))"

text \<open>What column \<open>i \<ge> 1\<close>, served by the table row \<open>m\<close>, holds in row \<open>j \<ge> 1\<close>.\<close>

definition column_value :: "int list list \<Rightarrow> int list \<Rightarrow> int \<Rightarrow> nat \<Rightarrow> nat \<Rightarrow> int" where
  "column_value M m sc i j =
     (if j \<le> length m - 1 then shl64 (m ! j) (nat (sc - int j))
      else recurrence M m (length m - 1) i j)"

text \<open>
  The row of \<open>V\<close> that step \<open>j\<close> folds into the accumulator, and the accumulator after \<open>j\<close>
  steps of the Gray-code update from the zero vector.
\<close>

definition lszb_nat :: "nat \<Rightarrow> nat" where
  "lszb_nat j = nat (the (index_of_least_significant_zero_bit (int j)))"

fun gray_acc :: "int list list \<Rightarrow> nat \<Rightarrow> nat \<Rightarrow> int list" where
  "gray_acc M d 0 = replicate d 0"
| "gray_acc M d (Suc j) = map2 (XOR) (gray_acc M d j) (M ! lszb_nat j)"

text \<open>The sample emitted for an accumulator.\<close>

definition scaled :: "int \<Rightarrow> int list \<Rightarrow> rat list" where
  "scaled sc ys = map (sample_value sc) ys"

text \<open>
  The invariant of a generator under \<open>__next__\<close> and \<open>generate_all_samples\<close>: the
  configuration is the one \<open>__init__\<close> accepted, \<open>V\<close> is the matrix \<open>generate_V\<close> built, the
  rows folded so far existed, and \<open>Y\<close> is the accumulator of the last sample handed out.
\<close>

definition gen_inv :: "int list list \<Rightarrow> state \<Rightarrow> bool" where
  "gen_inv directions = (\<lambda>(g, h).
     1 \<le> n_samples g \<and> int (L g) \<le> scale g
     \<and> 0 \<le> current g \<and> current g \<le> n_samples g
     \<and> Y g < length h \<and> V g < length h
     \<and> generate_V directions (scale g) (L g) (n_dimensions g) = Inr (int_matrix h (V g))
     \<and> h ! V g = IntMatrix (int_matrix h (V g))
     \<and> (\<forall>j<nat (current g - 1). lszb_nat j \<le> L g)
     \<and> h ! Y g = IntArray (gray_acc (int_matrix h (V g)) (n_dimensions g) (nat (current g - 1))))"

text \<open>
  The computed \<open>L\<close> suffices for the configured number of samples: every row index the
  Gray-code steps \<open>0 .. n_samples - 2\<close> ask for exists in \<open>V\<close>.
\<close>

definition adequate :: "SobolSample \<Rightarrow> bool" where
  "adequate g = (nat (n_samples g) \<le> 2 ^ L g)"

text \<open>Two states of the same generator: same configuration, same \<open>V\<close>.\<close>

definition same_config :: "state \<Rightarrow> state \<Rightarrow> bool" where
  "same_config = (\<lambda>(g, h) (g', h').
     n_samples g' = n_samples g \<and> n_dimensions g' = n_dimensions g \<and> scale g' = scale g
     \<and> L g' = L g \<and> Y g' = Y g \<and> V g' = V g
     \<and> int_matrix h' (V g) = int_matrix h (V g))"

text \<open>What the call of \<open>__next__\<close> number \<open>c\<close> (from 0) returns, read when it returns.\<close>

definition expected :: "state \<Rightarrow> nat \<Rightarrow> error + rat list" where
  "expected = (\<lambda>(g, h) c.
     if int c < n_samples g
     then Inr (scaled (scale g) (gray_acc (int_matrix h (V g)) (n_dimensions g) c))
     else Inl StopIteration)"

text \<open>The matrix \<open>generate_all_samples\<close> builds.\<close>

definition bulk_rows :: "state \<Rightarrow> rat list list" where
  "bulk_rows = (\<lambda>(g, h).
     map (\<lambda>j. scaled (scale g) (gray_acc (int_matrix h (V g)) (n_dimensions g) j))
       [0..<nat (n_samples g)])"



text \<open>A fresh generator, \<open>n_samples\<close> calls of \<open>__next__\<close>, each output read as it is returned.\<close>

definition snapshot_matrix :: "int list list \<Rightarrow> nat \<Rightarrow> int \<Rightarrow> nat \<Rightarrow> int
    \<Rightarrow> (error + (error + rat list) list) option" where
  "snapshot_matrix directions l n d sc =
     (case py_init directions l n d sc [] of
        Inl e \<Rightarrow> Some (Inl e)
      | Inr s0 \<Rightarrow>
          (case snapshots (nat n) s0 of
             None \<Rightarrow> None
           | Some (rs, s) \<Rightarrow> Some (Inr rs)))"


section \<open>The least significant zero bit\<close>

lemma lszb_loop_odd: "odd v \<Longrightarrow> lszb_loop v i = lszb_loop (v div 2) (i + 1)"
  by (subst lszb_loop.simps) (simp add: and_one_eq drop_bit_Suc mod_2_eq_odd)

lemma lszb_loop_even: "even v \<Longrightarrow> lszb_loop v i = Some i"
  by (subst lszb_loop.simps) (simp add: and_one_eq mod_2_eq_odd)

lemma lszb_loop_Some_not_minus1:
  assumes "lszb_loop v i = Some k"
  shows "v \<noteq> - 1"
  by (rule lszb_loop.raw_induct[where P = "\<lambda>v i k. v \<noteq> - 1", OF _ assms])
    (fastforce split: if_splits)

lemma lszb_loop_minus1: "lszb_loop (- 1) i = None"
  using lszb_loop_Some_not_minus1[of "- 1" i] by (cases "lszb_loop (- 1) i") auto

lemma lszb_loop_terminates:
  "v \<noteq> - 1 \<Longrightarrow> \<exists>t. lszb_loop v i = Some (i + int t) \<and> (\<forall>b<t. bit v b) \<and> \<not> bit v t"
proof (induction "nat \<bar>v\<bar>" arbitrary: v i rule: less_induct)
  case less
  show ?case
  proof (cases "even v")
    case True
    then have "lszb_loop v i = Some (i + int 0)" by (simp add: lszb_loop_even)
    moreover have "\<not> bit v 0" using True by (simp add: bit_0)
    ultimately show ?thesis by (intro exI[of _ 0]) simp
  next
    case False
    then obtain c where c: "v = 2 * c + 1" by (elim oddE)
    then have d: "v div 2 = c" by simp
    have ne: "v div 2 \<noteq> - 1" using less.prems c d by simp
    have "nat \<bar>v div 2\<bar> < nat \<bar>v\<bar>" using ne unfolding d unfolding c by linarith
    from less.hyps[OF this ne, of "i + 1"]
    obtain t where t: "lszb_loop (v div 2) (i + 1) = Some (i + 1 + int t)"
      "\<forall>b<t. bit (v div 2) b" "\<not> bit (v div 2) t" by blast
    have "lszb_loop v i = Some (i + int (Suc t))"
      using False t(1) by (simp add: lszb_loop_odd)
    moreover have "\<forall>b<Suc t. bit v b"
    proof (intro allI impI)
      fix b assume "b < Suc t"
      then show "bit v b" using False t(2) by (cases b) (simp_all add: bit_0 bit_Suc)
    qed
    moreover have "\<not> bit v (Suc t)" using t(3) by (simp add: bit_Suc)
    ultimately show ?thesis by blast
  qed
qed

text \<open>
  C4. For every non-negative integer \<open>v\<close> the function returns a 1-based index \<open>k\<close> such
  that the bits \<open>0 .. k - 2\<close> of \<open>v\<close> are all 1 and bit \<open>k - 1\<close> of \<open>v\<close> is 0; it returns 1
  for 0, 2 for 1, 3 for 3 and 4 for 7.
\<close>

theorem index_of_least_significant_zero_bit_law:
  assumes "0 \<le> v"
  shows "(\<exists>k. index_of_least_significant_zero_bit v = Some k \<and> 1 \<le> k
            \<and> (\<forall>b. int b \<le> k - 2 \<longrightarrow> bit v b) \<and> \<not> bit v (nat (k - 1)))
         \<and> index_of_least_significant_zero_bit 0 = Some 1
         \<and> index_of_least_significant_zero_bit 1 = Some 2
         \<and> index_of_least_significant_zero_bit 3 = Some 3
         \<and> index_of_least_significant_zero_bit 7 = Some 4"
proof -
  from assms have "v \<noteq> - 1" by simp
  from lszb_loop_terminates[OF this, of 1]
  obtain t where t: "lszb_loop v 1 = Some (1 + int t)" "\<forall>b<t. bit v b" "\<not> bit v t"
    by blast
  have "index_of_least_significant_zero_bit v = Some (1 + int t) \<and> 1 \<le> 1 + int t
      \<and> (\<forall>b. int b \<le> (1 + int t) - 2 \<longrightarrow> bit v b) \<and> \<not> bit v (nat ((1 + int t) - 1))"
    using t by (simp add: index_of_least_significant_zero_bit_def)
  then have "\<exists>k. index_of_least_significant_zero_bit v = Some k \<and> 1 \<le> k
            \<and> (\<forall>b. int b \<le> k - 2 \<longrightarrow> bit v b) \<and> \<not> bit v (nat (k - 1))"
    by blast
  moreover have "index_of_least_significant_zero_bit 0 = Some 1"
    "index_of_least_significant_zero_bit 1 = Some 2"
    "index_of_least_significant_zero_bit 3 = Some 3"
    "index_of_least_significant_zero_bit 7 = Some 4"
    by (simp_all add: index_of_least_significant_zero_bit_def lszb_loop_odd lszb_loop_even)
  ultimately show ?thesis by blast
qed

theorem index_of_least_significant_zero_bit_law_witness:
  "(0::int) \<le> 11 \<and> index_of_least_significant_zero_bit 11 = Some 3
     \<and> bit (11::int) 0 \<and> bit (11::int) 1 \<and> \<not> bit (11::int) 2"
proof -
  from index_of_least_significant_zero_bit_law[of 11]
  obtain k where k: "index_of_least_significant_zero_bit 11 = Some k"
    "\<forall>b. int b \<le> k - 2 \<longrightarrow> bit (11::int) b" "\<not> bit (11::int) (nat (k - 1))"
    by auto
  have e: "index_of_least_significant_zero_bit 11 = Some 3"
    by (simp add: index_of_least_significant_zero_bit_def lszb_loop_odd lszb_loop_even)
  with k(1) have k3: "k = 3" by simp
  from k(2) k3 have "bit (11::int) 0" "bit (11::int) 1" by simp_all
  moreover from k(3) k3 have "\<not> bit (11::int) 2" by simp
  ultimately show ?thesis using e by simp
qed

section \<open>Exhaustion\<close>

text \<open>
  C9. When an advance call fails with the exhaustion signal (\<open>current > n_samples - 1\<close>),
  the generator and every array of the heap, in particular \<open>Y\<close> and \<open>V\<close>, are exactly what
  they were before the call.
\<close>

theorem py_next_exhausted_unchanged:
  assumes "current g > n_samples g - 1"
  shows "py_next (g, h) = Some (Inl StopIteration, (g, h))"
  using assms by (simp add: py_next_def)

theorem py_next_exhausted_unchanged_witness:
  "current \<lparr>n_samples = 1, n_dimensions = 1, scale = 31, L = 0, current = 1, Y = 0, V = 1\<rparr>
     > n_samples \<lparr>n_samples = 1, n_dimensions = 1, scale = 31, L = 0, current = 1, Y = 0, V = 1\<rparr> - 1
   \<and> py_next (\<lparr>n_samples = 1, n_dimensions = 1, scale = 31, L = 0, current = 1, Y = 0, V = 1\<rparr>,
        [IntArray [0], IntMatrix [[0]]])
     = Some (Inl StopIteration,
        (\<lparr>n_samples = 1, n_dimensions = 1, scale = 31, L = 0, current = 1, Y = 0, V = 1\<rparr>,
         [IntArray [0], IntMatrix [[0]]]))"
  using py_next_exhausted_unchanged
    [of "\<lparr>n_samples = 1, n_dimensions = 1, scale = 31, L = 0, current = 1, Y = 0, V = 1\<rparr>"
        "[IntArray [0], IntMatrix [[0]]]"]
  by simp

section \<open>The direction-number matrix\<close>

lemma dims_set_cell: "dims M r d \<Longrightarrow> dims (set_cell M j i v) r d"
proof (cases "j < length M")
  case True
  assume "dims M r d"
  with True show ?thesis unfolding dims_def set_cell_def
    by (auto dest!: set_update_subset_insert[THEN subsetD])
next
  case False
  assume "dims M r d"
  moreover from False have "M[j := (M ! j)[i := v]] = M"
    by (intro list_update_beyond) simp
  ultimately show ?thesis unfolding set_cell_def by simp
qed

lemma cell_set_cell:
  "dims M r d \<Longrightarrow> j < r \<Longrightarrow> i < d \<Longrightarrow>
   cell (set_cell M j i v) j' i' = (if j' = j \<and> i' = i then v else cell M j' i')"
  unfolding dims_def set_cell_def cell_def
  by (cases "j' = j") (auto simp: nth_list_update)

lemma fold_set_cell_spec:
  "dims M r d \<Longrightarrow> n < r \<Longrightarrow> c < d \<Longrightarrow>
   dims (fold (\<lambda>j M. set_cell M j c (f j)) [1..<Suc n] M) r d \<and>
   (\<forall>j' i'. cell (fold (\<lambda>j M. set_cell M j c (f j)) [1..<Suc n] M) j' i' =
      (if i' = c \<and> 1 \<le> j' \<and> j' \<le> n then f j' else cell M j' i'))"
proof (induction n)
  case 0
  then show ?case by simp
next
  case (Suc n)
  define A where "A = fold (\<lambda>j M. set_cell M j c (f j)) [1..<Suc n] M"
  have IH: "dims A r d" "\<And>j' i'. cell A j' i' =
      (if i' = c \<and> 1 \<le> j' \<and> j' \<le> n then f j' else cell M j' i')"
    using Suc unfolding A_def by auto
  have step: "fold (\<lambda>j M. set_cell M j c (f j)) [1..<Suc (Suc n)] M
      = set_cell A (Suc n) c (f (Suc n))"
    by (simp add: A_def)
  show ?case
    unfolding step using IH Suc.prems
    by (auto simp: dims_set_cell cell_set_cell[OF IH(1)])
qed

lemma seed_column_spec:
  "dims M r d \<Longrightarrow> n < r \<Longrightarrow> c < d \<Longrightarrow>
   dims (seed_column m sc n c M) r d \<and>
   (\<forall>j' i'. cell (seed_column m sc n c M) j' i' =
      (if i' = c \<and> 1 \<le> j' \<and> j' \<le> n then shl64 (m ! j') (nat (sc - int j'))
       else cell M j' i'))"
  unfolding seed_column_def by (rule fold_set_cell_spec)

lemma set_cell_twice: "set_cell (set_cell M j c a) j c b = set_cell M j c b"
  unfolding set_cell_def by (cases "j < length M") (simp_all add: list_update_beyond)

lemma drop_bit_and_one: "drop_bit n (x::int) AND 1 = of_bool (bit x n)"
  by (simp add: and_one_eq bit_iff_odd_drop_bit mod_2_eq_odd)

lemma inner_fold:
  assumes "dims M r d" "j < r" "c < d" "1 \<le> j"
  shows "fold (\<lambda>k M. set_cell M j c (cell M j c XOR b k * cell M (j - k) c)) [1..<t]
           (set_cell M j c a)
         = set_cell M j c (fold (\<lambda>k acc. acc XOR b k * cell M (j - k) c) [1..<t] a)"
proof (induction t)
  case 0
  then show ?case by simp
next
  case (Suc t)
  show ?case
  proof (cases "1 \<le> t")
    case False
    then show ?thesis by simp
  next
    case True
    then have u: "[1..<Suc t] = [1..<t] @ [t]" by simp
    have ne: "j - t \<noteq> j" using True assms(4) by simp
    show ?thesis
      unfolding u fold_append comp_def Suc.IH
      using ne by (simp add: set_cell_twice cell_set_cell[OF assms(1-3)])
  qed
qed

lemma recur_row_eq:
  assumes "dims M r d" "j < r" "c < d" "1 \<le> j"
  shows "recur_row m s c j M = set_cell M j c (recurrence M m s c j)"
  unfolding recur_row_def inner_fold[OF assms]
  by (simp add: recurrence_def drop_bit_and_one cell_def)

lemma recurrence_zero: "recurrence M m 0 c j = 0"
  by (simp add: recurrence_def)

lemma recurrence_cong:
  assumes "\<And>j'. j' < j \<Longrightarrow> M ! j' ! c = M' ! j' ! c" "s \<le> j"
  shows "recurrence M m s c j = recurrence M' m s c j"
proof (cases "s = 0")
  case True
  then show ?thesis by (simp add: recurrence_zero)
next
  case False
  with assms(2) have a: "j - s < j" by simp
  have b: "\<And>k. k \<in> set [1..<s] \<Longrightarrow> j - k < j" using assms(2) by auto
  show ?thesis
    unfolding recurrence_def
    by (rule fold_cong) (simp_all add: assms(1)[OF a] assms(1)[OF b])
qed

lemma recur_rows_spec:
  assumes "dims M r d" "c < d"
  shows "s \<le> t \<Longrightarrow> t < r \<Longrightarrow>
    dims (fold (recur_row m s c) [Suc s..<Suc t] M) r d \<and>
    (\<forall>j' i'. cell (fold (recur_row m s c) [Suc s..<Suc t] M) j' i' =
       (if i' = c \<and> s < j' \<and> j' \<le> t
        then recurrence (fold (recur_row m s c) [Suc s..<Suc t] M) m s c j'
        else cell M j' i'))"
proof (induction t)
  case 0
  then show ?case using assms by simp
next
  case (Suc t)
  show ?case
  proof (cases "s = Suc t")
    case True
    then show ?thesis using assms by simp
  next
    case False
    with Suc.prems have st: "s \<le> t" "t < r" by simp_all
    define R where "R = fold (recur_row m s c) [Suc s..<Suc t] M"
    have IH: "dims R r d" "\<And>j' i'. cell R j' i' =
       (if i' = c \<and> s < j' \<and> j' \<le> t then recurrence R m s c j' else cell M j' i')"
      using Suc.IH[OF st] unfolding R_def by auto
    have u: "[Suc s..<Suc (Suc t)] = [Suc s..<Suc t] @ [Suc t]" using st by simp
    define R' where "R' = set_cell R (Suc t) c (recurrence R m s c (Suc t))"
    have step: "fold (recur_row m s c) [Suc s..<Suc (Suc t)] M = R'"
      unfolding u fold_append comp_def R'_def R_def[symmetric]
      using recur_row_eq[OF IH(1) Suc.prems(2) assms(2), of m s] by simp
    have cs: "\<And>j' i'. cell R' j' i' =
        (if j' = Suc t \<and> i' = c then recurrence R m s c (Suc t) else cell R j' i')"
      unfolding R'_def by (rule cell_set_cell[OF IH(1) Suc.prems(2) assms(2)])
    have agree: "\<And>j j'. j \<le> Suc t \<Longrightarrow> j' < j \<Longrightarrow> R ! j' ! c = R' ! j' ! c"
      using cs[unfolded cell_def] by simp
    have rc: "\<And>j. s \<le> j \<Longrightarrow> j \<le> Suc t \<Longrightarrow> recurrence R m s c j = recurrence R' m s c j"
      by (rule recurrence_cong) (use agree in auto)
    have "dims R' r d" unfolding R'_def using IH(1) by (rule dims_set_cell)
    moreover have "\<forall>j' i'. cell R' j' i' =
       (if i' = c \<and> s < j' \<and> j' \<le> Suc t then recurrence R' m s c j' else cell M j' i')"
    proof (intro allI)
      fix j' i'
      show "cell R' j' i' =
       (if i' = c \<and> s < j' \<and> j' \<le> Suc t then recurrence R' m s c j' else cell M j' i')"
        using st rc[of j'] by (auto simp: cs IH(2))
    qed
    ultimately show ?thesis unfolding step by blast
  qed
qed


lemma fill_column_spec:
  assumes "dims M (Suc l) d" "c < d"
  shows "dims (fill_column m sc l c M) (Suc l) d \<and>
    (\<forall>j' i'. cell (fill_column m sc l c M) j' i' =
       (if i' = c \<and> 1 \<le> j' \<and> j' \<le> l
        then column_value (fill_column m sc l c M) m sc c j'
        else cell M j' i'))"
proof (cases "l \<le> length m - 1")
  case True
  then have e: "fill_column m sc l c M = seed_column m sc l c M"
    by (simp add: fill_column_def)
  show ?thesis
    unfolding e using seed_column_spec[OF assms(1) _ assms(2), of l m sc] True
    by (auto simp: column_value_def)
next
  case False
  define s where "s = length m - 1"
  define A where "A = seed_column m sc s c M"
  define R where "R = fold (recur_row m s c) [Suc s..<Suc l] A"
  from False have sl: "s < l" by (simp add: s_def)
  have e: "fill_column m sc l c M = R"
    using False by (simp add: fill_column_def R_def A_def s_def Let_def)
  have A: "dims A (Suc l) d" "\<And>j' i'. cell A j' i' =
      (if i' = c \<and> 1 \<le> j' \<and> j' \<le> s then shl64 (m ! j') (nat (sc - int j')) else cell M j' i')"
    using seed_column_spec[OF assms(1) _ assms(2), of s m sc] sl unfolding A_def by auto
  have R: "dims R (Suc l) d" "\<And>j' i'. cell R j' i' =
       (if i' = c \<and> s < j' \<and> j' \<le> l then recurrence R m s c j' else cell A j' i')"
    using recur_rows_spec[OF A(1) assms(2), of s l m] sl unfolding R_def by auto
  have cv: "\<And>j'. column_value R m sc c j' =
      (if j' \<le> s then shl64 (m ! j') (nat (sc - int j')) else recurrence R m s c j')"
    by (simp add: column_value_def s_def)
  show ?thesis
    unfolding e using R(1) sl
    by (auto simp: R(2) A(2) cv)
qed

lemma recurrence_cong_column:
  assumes "\<And>j'. M ! j' ! c = M' ! j' ! c"
  shows "recurrence M m s c j = recurrence M' m s c j"
  unfolding recurrence_def by (rule fold_cong) (simp_all add: assms)

lemma column_value_cong:
  assumes "\<And>j'. cell M j' c = cell M' j' c"
  shows "column_value M m sc c j = column_value M' m sc c j"
  unfolding column_value_def
  using recurrence_cong_column[of M c M' m "length m - 1" j] assms[unfolded cell_def] by simp

lemma columns_loop_spec:
  "columns_loop tbl sc l cs M = Inr R \<Longrightarrow> dims M (Suc l) d \<Longrightarrow> \<forall>i\<in>set cs. Suc i < d \<Longrightarrow>
   distinct cs \<Longrightarrow>
   dims R (Suc l) d
   \<and> (\<forall>i\<in>set cs. i < length tbl \<and> tbl ! i \<noteq> [] \<and> list_all in_int64 (tbl ! i)) \<and>
   (\<forall>j' i'. cell R j' i' =
      (if 1 \<le> i' \<and> i' - 1 \<in> set cs \<and> 1 \<le> j' \<and> j' \<le> l
       then column_value R (tbl ! (i' - 1)) sc i' j'
       else cell M j' i'))"
proof (induction cs arbitrary: M)
  case Nil
  then show ?case by simp
next
  case (Cons i cs)
  from Cons.prems(1) have i: "i < length tbl" "tbl ! i \<noteq> []" "list_all in_int64 (tbl ! i)"
    by (auto split: if_splits simp: Let_def)
  define M1 where "M1 = fill_column (tbl ! i) sc l (Suc i) M"
  from Cons.prems(1) i have run: "columns_loop tbl sc l cs M1 = Inr R"
    by (simp add: M1_def Let_def)
  have id: "Suc i < d" using Cons.prems(3) by simp
  have M1: "dims M1 (Suc l) d" "\<And>j' i'. cell M1 j' i' =
       (if i' = Suc i \<and> 1 \<le> j' \<and> j' \<le> l
        then column_value M1 (tbl ! i) sc (Suc i) j'
        else cell M j' i')"
    using fill_column_spec[OF Cons.prems(2) id, of "tbl ! i" sc] unfolding M1_def by auto
  have IH: "dims R (Suc l) d"
    "\<forall>i\<in>set cs. i < length tbl \<and> tbl ! i \<noteq> [] \<and> list_all in_int64 (tbl ! i)"
    "\<And>j' i'. cell R j' i' =
      (if 1 \<le> i' \<and> i' - 1 \<in> set cs \<and> 1 \<le> j' \<and> j' \<le> l
       then column_value R (tbl ! (i' - 1)) sc i' j'
       else cell M1 j' i')"
    using Cons.IH[OF run M1(1)] Cons.prems(3,4) by auto
  have same: "\<And>j'. cell R j' (Suc i) = cell M1 j' (Suc i)"
    using Cons.prems(4) by (simp add: IH(3))
  have cv: "\<And>j'. column_value M1 (tbl ! i) sc (Suc i) j' = column_value R (tbl ! i) sc (Suc i) j'"
    by (rule column_value_cong) (simp add: same)
  have "\<forall>j' i'. cell R j' i' =
      (if 1 \<le> i' \<and> i' - 1 \<in> set (i # cs) \<and> 1 \<le> j' \<and> j' \<le> l
       then column_value R (tbl ! (i' - 1)) sc i' j'
       else cell M j' i')"
  proof (intro allI)
    fix j' i'
    show "cell R j' i' =
      (if 1 \<le> i' \<and> i' - 1 \<in> set (i # cs) \<and> 1 \<le> j' \<and> j' \<le> l
       then column_value R (tbl ! (i' - 1)) sc i' j'
       else cell M j' i')"
    proof (cases "i' = Suc i")
      case True
      then show ?thesis using same[of j'] cv[of j'] by (simp add: M1(2))
    next
      case False
      then have "i' - 1 \<noteq> i \<or> i' = 0" by auto
      then show ?thesis using False by (auto simp: IH(3) M1(2))
    qed
  qed
  then show ?case using IH(1,2) i by simp
qed


lemma shl64_exact:
  assumes "0 \<le> x" "x * 2 ^ k < 2 ^ 63"
  shows "shl64 x k = x * 2 ^ k"
proof -
  have "- (2 ^ 63) \<le> x * 2 ^ k" using assms(1) by (simp add: order_trans[of _ 0])
  then show ?thesis
    unfolding shl64_def using assms(2)
    by (simp add: push_bit_eq_mult signed_take_bit_int_eq_self)
qed

lemma generate_V_spec:
  assumes "generate_V tbl sc l d = Inr M"
  shows "1 \<le> d" "dims M (Suc l) d"
    "\<forall>i<d - 1. i < length tbl \<and> tbl ! i \<noteq> [] \<and> list_all in_int64 (tbl ! i)"
    "\<And>j i. j \<le> l \<Longrightarrow> i < d \<Longrightarrow> M ! j ! i =
       (if j = 0 then 0
        else if i = 0 then 2 ^ nat (sc - int j)
        else column_value M (tbl ! (i - 1)) sc i j)"
    "1 \<le> l \<Longrightarrow> int l \<le> sc \<and> sc \<le> 63"
proof -
  have g: "\<not> (1 \<le> l \<and> sc < int l)" "d \<noteq> 0" "\<not> (1 \<le> l \<and> 64 \<le> sc)"
    using assms by (auto simp: generate_V_def split: if_splits)
  show d: "1 \<le> d" using g(2) by simp
  show "1 \<le> l \<Longrightarrow> int l \<le> sc \<and> sc \<le> 63" using g(1,3) by auto
  define M0 :: "int list list" where "M0 = replicate (Suc l) (replicate d 0)"
  define M1 where
    "M1 = fold (\<lambda>j M. set_cell M j 0 (push_bit (nat (sc - int j)) 1)) [1..<Suc l] M0"
  have M0: "dims M0 (Suc l) d" by (simp add: dims_def M0_def del: replicate_Suc)
  have run: "columns_loop tbl sc l [0..<d - 1] M1 = Inr M"
    using assms
    unfolding generate_V_def if_not_P[OF g(1)] if_not_P[OF g(2)] if_not_P[OF g(3)] M1_def M0_def .
  have M1: "dims M1 (Suc l) d" "\<And>j' i'. cell M1 j' i' =
      (if i' = 0 \<and> 1 \<le> j' \<and> j' \<le> l
       then push_bit (nat (sc - int j')) 1 else cell M0 j' i')"
    using fold_set_cell_spec[OF M0, of l 0 "\<lambda>j. push_bit (nat (sc - int j)) 1"] d
    unfolding M1_def by auto
  have L: "dims M (Suc l) d"
    "\<forall>i\<in>set [0..<d - 1]. i < length tbl \<and> tbl ! i \<noteq> [] \<and> list_all in_int64 (tbl ! i)"
    "\<And>j' i'. cell M j' i' =
      (if 1 \<le> i' \<and> i' - 1 \<in> set [0..<d - 1] \<and> 1 \<le> j' \<and> j' \<le> l
       then column_value M (tbl ! (i' - 1)) sc i' j'
       else cell M1 j' i')"
  proof -
    have a: "\<forall>i\<in>set [0..<d - 1]. Suc i < d" by auto
    have b: "distinct [0..<d - 1]" by simp
    note C = columns_loop_spec[OF run M1(1) a b]
    show "dims M (Suc l) d" using C by blast
    show "\<forall>i\<in>set [0..<d - 1]. i < length tbl \<and> tbl ! i \<noteq> [] \<and> list_all in_int64 (tbl ! i)"
      using C by blast
    show "\<And>j' i'. cell M j' i' =
      (if 1 \<le> i' \<and> i' - 1 \<in> set [0..<d - 1] \<and> 1 \<le> j' \<and> j' \<le> l
       then column_value M (tbl ! (i' - 1)) sc i' j'
       else cell M1 j' i')" using C by blast
  qed
  show "dims M (Suc l) d" by (rule L(1))
  show "\<forall>i<d - 1. i < length tbl \<and> tbl ! i \<noteq> [] \<and> list_all in_int64 (tbl ! i)"
    using L(2) by simp
  fix j i assume ji: "j \<le> l" "i < d"
  have z: "cell M0 j i = 0" using ji by (simp add: cell_def M0_def del: replicate_Suc)
  have "cell M j i =
       (if j = 0 then 0
        else if i = 0 then push_bit (nat (sc - int j)) 1
        else column_value M (tbl ! (i - 1)) sc i j)"
    unfolding L(3) M1(2) z using ji by auto
  then show "M ! j ! i =
       (if j = 0 then 0
        else if i = 0 then 2 ^ nat (sc - int j)
        else column_value M (tbl ! (i - 1)) sc i j)"
    by (simp add: cell_def push_bit_eq_mult)
qed

text \<open>
  C3. \<open>generate_V\<close> returns a matrix of \<open>L + 1\<close> rows and \<open>n_dimensions\<close> columns whose row 0
  is zero, whose column 0 holds \<open>2 ^ (scale - j)\<close> in the rows \<open>j = 1 .. L\<close> (where
  \<open>j \<le> scale \<le> 63\<close>, or the function would have raised), and whose column
  \<open>i \<ge> 1\<close>, with \<open>m\<close> the table row of that column and \<open>s = len(m) - 1\<close>, holds
  \<open>m[j] << (scale - j)\<close> in the rows \<open>1 .. L\<close> when \<open>L \<le> s\<close>, and otherwise these seeds in the
  rows \<open>1 .. s\<close> and the recurrence in the rows \<open>s + 1 .. L\<close>. \<open><<\<close> is the shift of 64-bit
  integers; for a seed with \<open>0 \<le> m[j] < 2 ^ j\<close> it is the product \<open>m[j] * 2 ^ (scale - j)\<close>.
\<close>

theorem generate_V_structure:
  assumes "generate_V directions sc l d = Inr M"
  shows "length M = l + 1 \<and> (\<forall>row\<in>set M. length row = d)
    \<and> (\<forall>i<d. M ! 0 ! i = 0)
    \<and> (\<forall>j. 1 \<le> j \<and> j \<le> l \<longrightarrow>
          int j \<le> sc \<and> sc \<le> 63 \<and> M ! j ! 0 = 2 ^ nat (sc - int j))
    \<and> (\<forall>i. 1 \<le> i \<and> i < d \<longrightarrow>
         (let m = directions ! (i - 1); s = length m - 1 in
          (l \<le> s \<longrightarrow>
             (\<forall>j. 1 \<le> j \<and> j \<le> l \<longrightarrow> M ! j ! i = shl64 (m ! j) (nat (sc - int j))))
          \<and> (s < l \<longrightarrow>
             (\<forall>j. 1 \<le> j \<and> j \<le> s \<longrightarrow> M ! j ! i = shl64 (m ! j) (nat (sc - int j)))
             \<and> (\<forall>j. s < j \<and> j \<le> l \<longrightarrow> M ! j ! i = recurrence M m s i j))
          \<and> (\<forall>j. 1 \<le> j \<and> j \<le> l \<and> j \<le> s \<and> 0 \<le> m ! j \<and> m ! j < 2 ^ j \<longrightarrow>
                M ! j ! i = m ! j * 2 ^ nat (sc - int j))))"
proof -
  note S = generate_V_spec[OF assms]
  have "length M = l + 1 \<and> (\<forall>row\<in>set M. length row = d)"
    using S(2) by (simp add: dims_def)
  moreover have "\<forall>i<d. M ! 0 ! i = 0" using S(4)[of 0] by simp
  moreover have "\<forall>j. 1 \<le> j \<and> j \<le> l \<longrightarrow>
          int j \<le> sc \<and> sc \<le> 63 \<and> M ! j ! 0 = 2 ^ nat (sc - int j)"
    using S(4)[of _ 0] S(1) S(5) by auto
  moreover have "\<forall>i. 1 \<le> i \<and> i < d \<longrightarrow>
         (let m = directions ! (i - 1); s = length m - 1 in
          (l \<le> s \<longrightarrow>
             (\<forall>j. 1 \<le> j \<and> j \<le> l \<longrightarrow> M ! j ! i = shl64 (m ! j) (nat (sc - int j))))
          \<and> (s < l \<longrightarrow>
             (\<forall>j. 1 \<le> j \<and> j \<le> s \<longrightarrow> M ! j ! i = shl64 (m ! j) (nat (sc - int j)))
             \<and> (\<forall>j. s < j \<and> j \<le> l \<longrightarrow> M ! j ! i = recurrence M m s i j))
          \<and> (\<forall>j. 1 \<le> j \<and> j \<le> l \<and> j \<le> s \<and> 0 \<le> m ! j \<and> m ! j < 2 ^ j \<longrightarrow>
                M ! j ! i = m ! j * 2 ^ nat (sc - int j)))"
  proof (intro allI impI)
    fix i assume i: "1 \<le> i \<and> i < d"
    define m where "m = directions ! (i - 1)"
    define s where "s = length m - 1"
    have v: "\<And>j. 1 \<le> j \<Longrightarrow> j \<le> l \<Longrightarrow> M ! j ! i =
        (if j \<le> s then shl64 (m ! j) (nat (sc - int j)) else recurrence M m s i j)"
      using S(4)[of _ i] i by (simp add: column_value_def m_def s_def)
    have ex: "M ! j ! i = m ! j * 2 ^ nat (sc - int j)"
      if j: "1 \<le> j" "j \<le> l" "j \<le> s" "0 \<le> m ! j" "m ! j < 2 ^ j" for j
    proof -
      have b: "int j \<le> sc" "sc \<le> 63" using S(5) j(1,2) by auto
      then have e: "nat sc = j + nat (sc - int j)" by simp
      have "m ! j * 2 ^ nat (sc - int j) < 2 ^ j * 2 ^ nat (sc - int j)" using j(5) by simp
      also have "\<dots> = 2 ^ nat sc" unfolding e by (simp add: power_add)
      also have "\<dots> \<le> (2::int) ^ 63" using b by (intro power_increasing) simp_all
      finally have "shl64 (m ! j) (nat (sc - int j)) = m ! j * 2 ^ nat (sc - int j)"
        using j(4) by (intro shl64_exact)
      then show ?thesis using v[OF j(1,2)] j(3) by simp
    qed
    show "let m = directions ! (i - 1); s = length m - 1 in
          (l \<le> s \<longrightarrow>
             (\<forall>j. 1 \<le> j \<and> j \<le> l \<longrightarrow> M ! j ! i = shl64 (m ! j) (nat (sc - int j))))
          \<and> (s < l \<longrightarrow>
             (\<forall>j. 1 \<le> j \<and> j \<le> s \<longrightarrow> M ! j ! i = shl64 (m ! j) (nat (sc - int j)))
             \<and> (\<forall>j. s < j \<and> j \<le> l \<longrightarrow> M ! j ! i = recurrence M m s i j))
          \<and> (\<forall>j. 1 \<le> j \<and> j \<le> l \<and> j \<le> s \<and> 0 \<le> m ! j \<and> m ! j < 2 ^ j \<longrightarrow>
                M ! j ! i = m ! j * 2 ^ nat (sc - int j))"
      unfolding Let_def m_def[symmetric] s_def[symmetric] using v ex by auto
  qed
  ultimately show ?thesis by blast
qed

theorem generate_V_structure_witness:
  "generate_V [[0, 1], [1, 1, 3]] 31 3 3 =
     Inr [[0, 0, 0], [1073741824, 1073741824, 1073741824],
          [536870912, 1610612736, 1610612736], [268435456, 1342177280, 805306368]]
   \<and> [[0, 0, 0], [1073741824, 1073741824, 1073741824],
          [536870912, 1610612736, 1610612736], [268435456, 1342177280, 805306368]] ! 3 ! 2
     = recurrence [[0, 0, 0], [1073741824, 1073741824, 1073741824],
          [536870912, 1610612736, 1610612736], [268435456, 1342177280, 805306368]]
         [1, 1, 3] 2 2 3
   \<and> [[0, 0, 0], [1073741824, 1073741824, 1073741824],
          [536870912, 1610612736, 1610612736], [268435456, 1342177280, 805306368]] ! 2 ! 2
     = (3 * 2 ^ 29 :: int)"
proof -
  define Mw :: "int list list" where
    "Mw = [[0, 0, 0], [1073741824, 1073741824, 1073741824],
          [536870912, 1610612736, 1610612736], [268435456, 1342177280, 805306368]]"
  have g: "generate_V [[0, 1], [1, 1, 3]] 31 3 3 = Inr Mw"
    unfolding Mw_def by code_simp
  have c: "1 \<le> (2::nat) \<and> 2 < (3::nat)" by simp
  note Y = generate_V_structure[OF g, THEN conjunct2, THEN conjunct2, THEN conjunct2,
      THEN conjunct2, rule_format, OF c, unfolded Let_def]
  note a = Y[THEN conjunct2, THEN conjunct1, rule_format, THEN conjunct2, rule_format, of 3]
  note b = Y[THEN conjunct2, THEN conjunct2, rule_format, of 2]
  from a have "Mw ! 3 ! 2 = recurrence Mw [1, 1, 3] 2 2 3" by (simp add: numeral_2_eq_2)
  moreover from b have "Mw ! 2 ! 2 = 3 * 2 ^ 29" by simp
  ultimately have "generate_V [[0, 1], [1, 1, 3]] 31 3 3 = Inr Mw
      \<and> Mw ! 3 ! 2 = recurrence Mw [1, 1, 3] 2 2 3 \<and> Mw ! 2 ! 2 = 3 * 2 ^ 29"
    using g by blast
  then show ?thesis unfolding Mw_def .
qed

text \<open>
  The 64-bit arithmetic at work: a seed \<open>5\<close> in row 1 of the table (not a direction number,
  which is below \<open>2 ^ j\<close>) shifted by 61 wraps to a negative entry, and at \<open>scale = 64\<close> the
  entry \<open>2 ^ 63\<close> of column 0 cannot be stored.
\<close>

lemma generate_V_int64_examples:
  "generate_V [[0, 5]] 62 1 2 = Inr [[0, 0], [2305843009213693952, - 6917529027641081856]]"
  "generate_V [] 64 1 1 = Inl OverflowError"
  by code_simp+

section \<open>The Gray-code accumulator and the two producers\<close>

lemma lszb_loop_nonneg:
  "0 \<le> v \<Longrightarrow> \<exists>t. lszb_loop v i = Some (i + int t) \<and> 2 ^ t \<le> v + 1"
proof (induction "nat v" arbitrary: v i rule: less_induct)
  case less
  show ?case
  proof (cases "even v")
    case True
    then have "lszb_loop v i = Some (i + int 0)" by (simp add: lszb_loop_even)
    moreover have "(2::int) ^ 0 \<le> v + 1" using less.prems by simp
    ultimately show ?thesis by blast
  next
    case False
    then obtain c where c: "v = 2 * c + 1" by (elim oddE)
    then have d: "v div 2 = c" by simp
    have c0: "0 \<le> c" using less.prems c by simp
    have "nat c < nat v" using c0 c by simp
    from less.hyps[OF this c0, of "i + 1"]
    obtain t where t: "lszb_loop c (i + 1) = Some (i + 1 + int t)" "2 ^ t \<le> c + 1" by blast
    have "lszb_loop v i = Some (i + int (Suc t))"
      using False t(1) d by (simp add: lszb_loop_odd)
    moreover have "2 ^ Suc t \<le> v + 1" using t(2) c by simp
    ultimately show ?thesis by blast
  qed
qed

lemma lszb_bound:
  shows "index_of_least_significant_zero_bit (int j) = Some (int (lszb_nat j))"
    and "1 \<le> lszb_nat j" and "j + 2 \<le> 2 ^ l \<Longrightarrow> lszb_nat j \<le> l"
proof -
  obtain t where t: "lszb_loop (int j) 1 = Some (1 + int t)" "2 ^ t \<le> int j + 1"
    using lszb_loop_nonneg[of "int j" 1] by auto
  then have e: "lszb_nat j = Suc t"
    by (simp add: lszb_nat_def index_of_least_significant_zero_bit_def)
  show "index_of_least_significant_zero_bit (int j) = Some (int (lszb_nat j))"
    using t(1) e by (simp add: index_of_least_significant_zero_bit_def)
  show "1 \<le> lszb_nat j" using e by simp
  assume a: "j + 2 \<le> 2 ^ l"
  have "int (2 ^ t) \<le> int (j + 1)" using t(2) by simp
  then have "(2::nat) ^ t \<le> j + 1" unfolding of_nat_le_iff .
  also have "\<dots> < 2 ^ l" using a by simp
  finally have "t < l" by simp
  then show "lszb_nat j \<le> l" using e by simp
qed

lemma update4:
  "a \<noteq> b \<Longrightarrow> h[a := x, b := y, a := x', b := y'] = h[a := x', b := y']"
  by (simp add: list_update_swap[of a b])


lemma matrix_get_ok:
  "0 \<le> idx \<Longrightarrow> nat idx < length M \<Longrightarrow> i < length (M ! nat idx) \<Longrightarrow>
   matrix_get M idx i = Inr (M ! nat idx ! i)"
  by (simp add: matrix_get_def Let_def)

lemma matrix_row_ok:
  "0 \<le> idx \<Longrightarrow> nat idx < length M \<Longrightarrow> matrix_row M idx = Inr (M ! nat idx)"
  by (simp add: matrix_row_def Let_def)

lemma sample_loop_effect:
  assumes idx: "index_of_least_significant_zero_bit (current g - 1) = Some idx"
      "0 \<le> idx" "nat idx < length M" "length (M ! nat idx) = d"
    and ne: "Y g \<noteq> so"
  shows "Y g < length h \<Longrightarrow> V g < length h \<Longrightarrow> so < length h \<Longrightarrow> h ! V g = IntMatrix M \<Longrightarrow>
    h ! Y g = IntArray ys \<Longrightarrow> h ! so = FloatArray fs \<Longrightarrow> length ys = d \<Longrightarrow>
    length fs = d \<Longrightarrow> \<forall>i\<in>set cs. i < d \<Longrightarrow> distinct cs \<Longrightarrow>
    sample_loop g so cs h = Some (Inr (),
      h[Y g := IntArray (map (\<lambda>k. if k \<in> set cs then ys ! k XOR M ! nat idx ! k else ys ! k) [0..<d]),
        so := FloatArray (map (\<lambda>k. if k \<in> set cs
                 then sample_value (scale g) (ys ! k XOR M ! nat idx ! k) else fs ! k) [0..<d])])"
proof (induction cs arbitrary: h ys fs)
  case Nil
  have "map (\<lambda>k. ys ! k) [0..<d] = ys" "map (\<lambda>k. fs ! k) [0..<d] = fs"
    using Nil by (auto intro: nth_equalityI)
  then show ?case using Nil by (simp add: list_update_same_conv[THEN iffD2])
next
  case (Cons i cs)
  let ?row = "M ! nat idx"
  define ys1 where "ys1 = ys[i := ys ! i XOR ?row ! i]"
  define fs1 where "fs1 = fs[i := sample_value (scale g) (ys1 ! i)]"
  define h2 where "h2 = h[Y g := IntArray ys1, so := FloatArray fs1]"
  have i: "i < d" "i \<notin> set cs" using Cons.prems by auto
  have neV: "V g \<noteq> Y g" "V g \<noteq> so" using Cons.prems(4,5,6) by auto
  have get: "matrix_get (int_matrix h (V g)) idx i = Inr (?row ! i)"
    using matrix_get_ok[OF idx(2,3), of i] idx(4) i by (simp add: int_matrix_def Cons.prems(4))
  have step: "sample_loop g so (i # cs) h = sample_loop g so cs h2"
    using idx(1) get Cons.prems(1-8) ne neV
    by (simp add: Let_def int_array_def float_array_def h2_def ys1_def fs1_def)
  have h2: "Y g < length h2" "V g < length h2" "so < length h2" "h2 ! V g = IntMatrix M"
    "h2 ! Y g = IntArray ys1" "h2 ! so = FloatArray fs1"
    using Cons.prems(1-6) ne neV by (simp_all add: h2_def)
  have len: "length ys1 = d" "length fs1 = d" using Cons.prems by (simp_all add: ys1_def fs1_def)
  have rest: "\<forall>i\<in>set cs. i < d" "distinct cs" using Cons.prems by simp_all
  note IH = Cons.IH[OF h2 len rest]
  have e1: "map (\<lambda>k. if k \<in> set cs then ys1 ! k XOR ?row ! k else ys1 ! k) [0..<d]
      = map (\<lambda>k. if k \<in> set (i # cs) then ys ! k XOR ?row ! k else ys ! k) [0..<d]"
    using i Cons.prems(7) by (auto simp: ys1_def nth_list_update)
  have e2: "map (\<lambda>k. if k \<in> set cs
                 then sample_value (scale g) (ys1 ! k XOR ?row ! k) else fs1 ! k) [0..<d]
      = map (\<lambda>k. if k \<in> set (i # cs)
                 then sample_value (scale g) (ys ! k XOR ?row ! k) else fs ! k) [0..<d]"
    using i Cons.prems(7,8) by (auto simp: ys1_def fs1_def nth_list_update)
  show ?case
    unfolding step IH e1 e2 unfolding h2_def using ne by (simp add: update4)
qed


lemma sample_loop_index_error:
  assumes "index_of_least_significant_zero_bit (current g - 1) = Some idx"
    "0 \<le> idx" "length M \<le> nat idx" "h ! V g = IntMatrix M"
  shows "sample_loop g so (i # cs) h = Some (Inl IndexError, h)"
proof -
  have "\<not> idx < int (length M)" using assms(2,3) by linarith
  then have "matrix_get (int_matrix h (V g)) idx i = Inl IndexError"
    using assms(2,4) by (simp add: matrix_get_def int_matrix_def Let_def)
  then show ?thesis using assms(1) by simp
qed

lemma gray_acc_length:
  assumes "dims M (Suc l) d"
  shows "\<forall>j'<j. lszb_nat j' \<le> l \<Longrightarrow> length (gray_acc M d j) = d"
proof (induction j)
  case 0
  then show ?case by simp
next
  case (Suc j)
  have "lszb_nat j \<le> l" using Suc.prems by simp
  then have "M ! lszb_nat j \<in> set M" using assms by (simp add: dims_def)
  then have "length (M ! lszb_nat j) = d" using assms by (simp add: dims_def)
  then show ?case using Suc by simp
qed

lemma map_nth_zip_xor:
  "length ys = d \<Longrightarrow> length row = d \<Longrightarrow>
   map (\<lambda>k. ys ! k XOR row ! k) [0..<d] = map2 (XOR) ys (row :: int list)"
  by (auto intro!: nth_equalityI)

lemma generate_sample_effect:
  assumes inv: "gen_inv tbl (g, h)" and c: "1 \<le> current g"
    and row: "lszb_nat (nat (current g - 1)) \<le> L g"
  defines "acc \<equiv> gray_acc (int_matrix h (V g)) (n_dimensions g) (nat (current g))"
  shows "generate_sample (g, h) = Some (Inr (length h), (g\<lparr>current := current g + 1\<rparr>,
     (h @ [FloatArray (scaled (scale g) acc)])[Y g := IntArray acc]))"
proof -
  define M where "M = int_matrix h (V g)"
  define d where "d = n_dimensions g"
  define j where "j = nat (current g - 1)"
  define h1 where "h1 = h @ [FloatArray (replicate d 0)]"
  have I: "\<forall>j'<j. lszb_nat j' \<le> L g" "Y g < length h" "V g < length h"
    "generate_V tbl (scale g) (L g) d = Inr M" "h ! V g = IntMatrix M"
    "h ! Y g = IntArray (gray_acc M d j)"
    using inv by (auto simp: gen_inv_def M_def d_def j_def)
  have dm: "dims M (Suc (L g)) d" using generate_V_spec(2)[OF I(4)] .
  have cj: "current g - 1 = int j" "nat (current g) = Suc j" using c by (simp_all add: j_def)
  note B = lszb_bound(1,2)[of j]
  have idx: "index_of_least_significant_zero_bit (current g - 1) = Some (int (lszb_nat j))"
    "0 \<le> int (lszb_nat j)" "nat (int (lszb_nat j)) < length M"
    "length (M ! nat (int (lszb_nat j))) = d"
    using B dm row by (simp_all add: cj dims_def j_def[symmetric])
  have ne: "Y g \<noteq> length h" using I(2) by simp
  have h1: "Y g < length h1" "V g < length h1" "length h < length h1" "h1 ! V g = IntMatrix M"
    "h1 ! Y g = IntArray (gray_acc M d j)" "h1 ! length h = FloatArray (replicate d 0)"
    using I by (simp_all add: h1_def nth_append)
  have la: "length (gray_acc M d j) = d" using gray_acc_length[OF dm I(1)] .
  have lr: "length (replicate d (0::rat)) = d" by simp
  have all: "\<forall>i\<in>set [0..<d]. i < d" "distinct [0..<d]" by simp_all
  note E = sample_loop_effect[OF idx ne h1 la lr all]
  have acc: "acc = map2 (XOR) (gray_acc M d j) (M ! lszb_nat j)"
    by (simp add: acc_def cj M_def d_def)
  have lrow: "length (M ! lszb_nat j) = d" using idx(4) by simp
  have lacc: "length acc = d" unfolding acc using la lrow by simp
  have m1: "map (\<lambda>k. if k \<in> set [0..<d]
        then gray_acc M d j ! k XOR M ! nat (int (lszb_nat j)) ! k
        else gray_acc M d j ! k) [0..<d] = acc"
    by (rule nth_equalityI) (simp_all add: lacc, simp add: acc la lrow)
  have m2: "map (\<lambda>k. if k \<in> set [0..<d]
        then sample_value (scale g) (gray_acc M d j ! k XOR M ! nat (int (lszb_nat j)) ! k)
        else replicate d 0 ! k) [0..<d] = scaled (scale g) acc"
    by (rule nth_equalityI) (simp_all add: lacc scaled_def, simp add: acc la lrow)
  have fin: "h1[Y g := IntArray acc, length h := FloatArray (scaled (scale g) acc)]
      = (h @ [FloatArray (scaled (scale g) acc)])[Y g := IntArray acc]"
    using I(2) by (simp add: h1_def list_update_append)
  show ?thesis
    unfolding generate_sample_def
    using E[unfolded m1 m2 fin]
    by (simp add: alloc_def h1_def d_def)
qed

lemma generate_sample_index_error:
  assumes inv: "gen_inv tbl (g, h)" and c: "1 \<le> current g"
    and row: "L g < lszb_nat (nat (current g - 1))"
  shows "generate_sample (g, h)
     = Some (Inl IndexError, (g, h @ [FloatArray (replicate (n_dimensions g) 0)]))"
proof -
  define M where "M = int_matrix h (V g)"
  define d where "d = n_dimensions g"
  define j where "j = nat (current g - 1)"
  define h1 where "h1 = h @ [FloatArray (replicate d 0)]"
  have I: "V g < length h" "generate_V tbl (scale g) (L g) d = Inr M" "h ! V g = IntMatrix M"
    using inv by (auto simp: gen_inv_def M_def d_def)
  have dm: "dims M (Suc (L g)) d" using generate_V_spec(2)[OF I(2)] .
  have d1: "[0..<d] = 0 # [1..<d]" using generate_V_spec(1)[OF I(2)] by (simp add: upt_conv_Cons)
  have cj: "current g - 1 = int j" using c by (simp add: j_def)
  have idx: "index_of_least_significant_zero_bit (current g - 1) = Some (int (lszb_nat j))"
    "0 \<le> int (lszb_nat j)" "length M \<le> nat (int (lszb_nat j))"
    using lszb_bound(1)[of j] dm row by (simp_all add: cj dims_def j_def[symmetric])
  have hV: "h1 ! V g = IntMatrix M" using I(1,3) by (simp add: h1_def nth_append)
  have "sample_loop g (length h) [0..<d] h1 = Some (Inl IndexError, h1)"
    unfolding d1 by (rule sample_loop_index_error[OF idx hV])
  then show ?thesis
    unfolding generate_sample_def by (simp add: alloc_def h1_def d_def)
qed


lemma bit_length_le: "a < 2 ^ n \<Longrightarrow> bit_length a \<le> n"
proof (induction n arbitrary: a)
  case 0
  then show ?case by (simp add: bit_length.simps)
next
  case (Suc n)
  show ?case
  proof (cases "a \<le> 0")
    case True
    then show ?thesis by (simp add: bit_length.simps)
  next
    case False
    have "a div 2 < 2 ^ n" using Suc.prems by simp
    from Suc.IH[OF this] show ?thesis using False by (subst bit_length.simps) simp
  qed
qed

lemma round53_small:
  assumes "\<bar>y\<bar> < 2 ^ 53"
  shows "round53 y = y"
proof -
  have "bit_length \<bar>y\<bar> \<le> 53" by (rule bit_length_le[OF assms])
  then have e: "bit_length \<bar>y\<bar> - 53 = 0" by simp
  show ?thesis unfolding round53_def Let_def e by (simp add: mult_sgn_abs)
qed

lemma sample_value_zero: "sample_value sc 0 = 0"
  by (simp add: sample_value_def round53_small)

lemma scaled_zeros: "scaled sc (replicate d 0) = replicate d 0"
  by (simp add: scaled_def sample_value_zero)

lemma gen_inv_append: "gen_inv tbl (g, h) \<Longrightarrow> gen_inv tbl (g, h @ e)"
  by (auto simp: gen_inv_def nth_append int_matrix_def)

lemma py_next_step:
  assumes inv: "gen_inv tbl (g, h)"
  shows "\<exists>r g' h'. py_next (g, h) = Some (r, (g', h')) \<and> gen_inv tbl (g', h')
     \<and> same_config (g, h) (g', h')
     \<and> (adequate g \<longrightarrow>
          map_sum id (read_array h') r = expected (g, h) (nat (current g))
          \<and> (if current g < n_samples g then current g' = current g + 1
             else r = Inl StopIteration \<and> g' = g \<and> h' = h))"
proof -
  define M where "M = int_matrix h (V g)"
  define d where "d = n_dimensions g"
  define j where "j = nat (current g - 1)"
  have I: "1 \<le> n_samples g" "0 \<le> current g" "current g \<le> n_samples g"
    "Y g < length h" "V g < length h" "h ! V g = IntMatrix M"
    "h ! Y g = IntArray (gray_acc M d (nat (current g - 1)))"
    "\<forall>j'<j. lszb_nat j' \<le> L g"
    using inv by (auto simp: gen_inv_def M_def d_def j_def)
  have neYV: "V g \<noteq> Y g" using I(6,7) by auto
  consider (stop) "current g > n_samples g - 1" | (first) "current g = 0"
    | (step) "1 \<le> current g" "current g \<le> n_samples g - 1" "lszb_nat j \<le> L g"
    | (fail) "1 \<le> current g" "current g \<le> n_samples g - 1" "L g < lszb_nat j"
    using I(2) by linarith
  then show ?thesis
  proof cases
    case stop
    then have "py_next (g, h) = Some (Inl StopIteration, (g, h))" by (simp add: py_next_def)
    moreover have "expected (g, h) (nat (current g)) = Inl StopIteration"
      using stop I(2) by (simp add: expected_def)
    ultimately show ?thesis using inv stop by (simp add: same_config_def)
  next
    case first
    have n: "py_next (g, h) = Some (Inr (Y g), (g\<lparr>current := 1\<rparr>, h))"
      using first I(1) by (simp add: py_next_def)
    have "read_array h (Y g) = replicate d 0"
      using I(7) first by (simp add: read_array_def)
    then have e: "map_sum id (read_array h) (Inr (Y g)) = expected (g, h) (nat (current g))"
      using first I(1) by (simp add: expected_def scaled_zeros M_def d_def)
    have "gen_inv tbl (g\<lparr>current := 1\<rparr>, h)"
      using inv first by (simp add: gen_inv_def)
    then show ?thesis using n e first I(1) by (simp add: same_config_def)
  next
    case step
    define acc where "acc = gray_acc M d (nat (current g))"
    define h' where "h' = (h @ [FloatArray (scaled (scale g) acc)])[Y g := IntArray acc]"
    define g' where "g' = g\<lparr>current := current g + 1\<rparr>"
    have n: "py_next (g, h) = Some (Inr (length h), (g', h'))"
      using generate_sample_effect[OF inv step(1) step(3)[unfolded j_def]] step(1,2)
      by (simp add: py_next_def acc_def h'_def g'_def M_def d_def)
    have hV: "h' ! V g = IntMatrix M" using I(5,6) neYV by (simp add: h'_def nth_append)
    have hY: "h' ! Y g = IntArray acc" using I(4) by (simp add: h'_def)
    have hS: "h' ! length h = FloatArray (scaled (scale g) acc)"
      using I(4) by (simp add: h'_def)
    have mV: "int_matrix h' (V g) = M" using hV by (simp add: int_matrix_def)
    have rows: "\<forall>j'<nat (current g + 1 - 1). lszb_nat j' \<le> L g"
    proof (intro allI impI)
      fix j' assume "j' < nat (current g + 1 - 1)"
      then have "j' < j \<or> j' = j" using step(1) by (auto simp: j_def)
      then show "lszb_nat j' \<le> L g" using I(8) step(3) by auto
    qed
    have "gen_inv tbl (g', h')"
      using inv step(1,2) hY I(4,5) mV hV rows
      by (simp add: gen_inv_def g'_def acc_def M_def[symmetric] d_def[symmetric], simp add: h'_def)
    moreover have "same_config (g, h) (g', h')"
      using mV by (simp add: same_config_def g'_def M_def)
    moreover have "map_sum id (read_array h') (Inr (length h)) = expected (g, h) (nat (current g))"
      using step(1,2) hS by (simp add: expected_def read_array_def acc_def M_def d_def)
    ultimately show ?thesis using n step(1,2) by (simp add: g'_def)
  next
    case fail
    define h' where "h' = h @ [FloatArray (replicate (n_dimensions g) 0)]"
    have n: "py_next (g, h) = Some (Inl IndexError, (g, h'))"
      using generate_sample_index_error[OF inv fail(1) fail(3)[unfolded j_def]] fail(1,2)
      by (simp add: py_next_def h'_def)
    have j2: "j + 2 \<le> nat (n_samples g)" using fail(1,2) by (simp add: j_def)
    have "\<not> adequate g"
    proof
      assume "adequate g"
      then have a: "nat (n_samples g) \<le> 2 ^ L g" unfolding adequate_def .
      have "j + 2 \<le> 2 ^ L g" by (rule order_trans[OF j2 a])
      from lszb_bound(3)[OF this] fail(3) show False by simp
    qed
    moreover have "gen_inv tbl (g, h')" unfolding h'_def by (rule gen_inv_append[OF inv])
    moreover have "same_config (g, h) (g, h')"
      using I(5) by (simp add: same_config_def h'_def int_matrix_def nth_append)
    ultimately show ?thesis using n by simp
  qed
qed


lemma expected_same_config: "same_config s s' \<Longrightarrow> expected s' = expected s"
  by (cases s, cases s') (auto simp: same_config_def expected_def fun_eq_iff)

lemma same_config_refl: "same_config s s"
  by (cases s) (simp add: same_config_def)

lemma adequate_same_config: "same_config (g, h) (g', h') \<Longrightarrow> adequate g' = adequate g"
  by (simp add: same_config_def adequate_def)

lemma same_config_trans: "same_config s s' \<Longrightarrow> same_config s' s'' \<Longrightarrow> same_config s s''"
  by (cases s, cases s', cases s'') (auto simp: same_config_def)

lemma snapshots_spec:
  "gen_inv tbl (g, h) \<Longrightarrow> adequate g \<Longrightarrow>
   \<exists>rs s'. snapshots k (g, h) = Some (rs, s') \<and> gen_inv tbl s' \<and> same_config (g, h) s'
     \<and> length rs = k \<and> (\<forall>i<k. rs ! i = expected (g, h) (nat (current g) + i))"
proof (induction k arbitrary: g h)
  case 0
  then show ?case by (simp add: same_config_refl)
next
  case (Suc k)
  from py_next_step[OF Suc.prems(1)] Suc.prems(2)
  obtain r g' h' where st: "py_next (g, h) = Some (r, (g', h'))" "gen_inv tbl (g', h')"
    "same_config (g, h) (g', h')"
    "map_sum id (read_array h') r = expected (g, h) (nat (current g))"
    "if current g < n_samples g then current g' = current g + 1
     else r = Inl StopIteration \<and> g' = g \<and> h' = h"
    by blast
  have ad: "adequate g'" using adequate_same_config[OF st(3)] Suc.prems(2) by simp
  from Suc.IH[OF st(2) ad]
  obtain rs s' where ih: "snapshots k (g', h') = Some (rs, s')" "gen_inv tbl s'"
    "same_config (g', h') s'" "length rs = k"
    "\<forall>i<k. rs ! i = expected (g', h') (nat (current g') + i)"
    by blast
  have c0: "0 \<le> current g" using Suc.prems by (simp add: gen_inv_def)
  have ex: "expected (g', h') = expected (g, h)" by (rule expected_same_config[OF st(3)])
  have tl: "\<forall>i<k. rs ! i = expected (g, h) (nat (current g) + Suc i)"
  proof (cases "current g < n_samples g")
    case True
    then have "nat (current g') = Suc (nat (current g))" using st(5) c0 by simp
    then show ?thesis using ih(5) ex by simp
  next
    case False
    then have "g' = g" using st(5) by simp
    moreover have "\<And>c. nat (current g) \<le> c \<Longrightarrow> expected (g, h) c = Inl StopIteration"
      using False c0 by (auto simp: expected_def)
    ultimately show ?thesis using ih(5) ex by simp
  qed
  have run: "snapshots (Suc k) (g, h) = Some (map_sum id (read_array h') r # rs, s')"
    using st(1) ih(1) by simp
  have "\<forall>i<Suc k. (map_sum id (read_array h') r # rs) ! i
      = expected (g, h) (nat (current g) + i)"
  proof (intro allI impI)
    fix i assume "i < Suc k"
    then show "(map_sum id (read_array h') r # rs) ! i = expected (g, h) (nat (current g) + i)"
      using st(4) tl by (cases i) simp_all
  qed
  then show ?case
    using run ih(2,4) same_config_trans[OF st(3) ih(3)] by simp
qed


lemma py_init_spec:
  assumes "py_init tbl l n d sc h0 = Inr (g, h)"
  shows "gen_inv tbl (g, h)" "current g = 0" "n_samples g = n" "n_dimensions g = d"
    "scale g = sc" "Y g = length h0" "V g = Suc (length h0)"
    "\<exists>M. h = h0 @ [IntArray (replicate d 0), IntMatrix M]" "L g = l"
proof -
  from assms obtain M where M: "generate_V tbl sc l d = Inr M"
    and n: "0 < n" "int l \<le> sc"
    and g: "g = \<lparr>n_samples = n, n_dimensions = d, scale = sc, L = l,
                    current = 0, Y = length h0, V = Suc (length h0)\<rparr>"
    and h: "h = h0 @ [IntArray (replicate d 0), IntMatrix M]"
    by (auto simp: py_init_def alloc_def Let_def split: if_splits sum.splits)
  show "current g = 0" "n_samples g = n" "n_dimensions g = d"
    "scale g = sc" "Y g = length h0" "V g = Suc (length h0)" "L g = l"
    by (simp_all add: g)
  show "\<exists>M. h = h0 @ [IntArray (replicate d 0), IntMatrix M]" using h by blast
  show "gen_inv tbl (g, h)"
    using M n by (simp add: gen_inv_def g h nth_append int_matrix_def)
qed


lemma xor_zeros: "length row = d \<Longrightarrow> map2 (XOR) (replicate d 0) row = (row :: int list)"
  by (rule nth_equalityI) simp_all

lemma all_loop_ref:
  assumes dm: "dims M (Suc l) d" and ad: "n \<le> 2 ^ l"
    and ne: "V g \<noteq> sa" "V g \<noteq> x" "sa \<noteq> x"
  shows "j0 \<le> n \<Longrightarrow> 1 \<le> j0 \<Longrightarrow> V g < length h \<Longrightarrow> sa < length h \<Longrightarrow> x < length h \<Longrightarrow>
    h ! V g = IntMatrix M \<Longrightarrow> h ! x = IntArray (gray_acc M d (j0 - 1)) \<Longrightarrow>
    h ! sa = FloatMatrix F \<Longrightarrow> length F = n \<Longrightarrow>
    all_loop g sa [j0..<n] (Ref x) h = Some (Inr (),
      h[x := IntArray (gray_acc M d (n - 1)),
        sa := FloatMatrix (take j0 F @ map (\<lambda>j. scaled (scale g) (gray_acc M d j)) [j0..<n])])"
proof (induction "n - j0" arbitrary: j0 h F)
  case 0
  then have e: "j0 = n" by simp
  have "h[x := IntArray (gray_acc M d (n - 1)), sa := FloatMatrix F] = h"
    using 0 e by (simp add: list_update_same_conv[THEN iffD2])
  then show ?case using 0 e by simp
next
  case (Suc k)
  then have lt: "j0 < n" by simp
  define j where "j = j0 - 1"
  have j: "j0 = Suc j" "int j0 - 1 = int j" "j + 2 \<le> n" using Suc.prems(2) lt by (simp_all add: j_def)
  have small: "\<And>j'. j' + 2 \<le> n \<Longrightarrow> lszb_nat j' \<le> l"
    using lszb_bound(3) ad by (meson order_trans)
  note B = lszb_bound(1,2)[of j] small[OF j(3)]
  define row where "row = M ! lszb_nat j"
  have rM: "lszb_nat j < length M" "length row = d"
    using B(3) dm by (simp_all add: dims_def row_def)
  have la: "length (gray_acc M d j) = d"
    by (rule gray_acc_length[OF dm]) (use small j(3) in auto)
  define acc where "acc = gray_acc M d j0"
  have acc: "acc = map2 (XOR) (gray_acc M d j) row" by (simp add: acc_def j(1) row_def)
  define F1 where "F1 = F[j0 := scaled (scale g) acc]"
  define h2 where "h2 = h[x := IntArray acc, sa := FloatMatrix F1]"
  have mr: "matrix_row (int_matrix h (V g)) (int (lszb_nat j)) = Inr row"
    using matrix_row_ok[of "int (lszb_nat j)" M] rM(1) Suc.prems(6)
    by (simp add: int_matrix_def row_def)
  have step: "all_loop g sa [j0..<n] (Ref x) h = all_loop g sa [Suc j0..<n] (Ref x) h2"
  proof -
    have jm: "j0 - Suc 0 = j" by (simp add: j_def)
    show ?thesis
      using lt B(1) mr Suc.prems(3-8) ne
      by (simp add: upt_conv_Cons j(2) Let_def int_array_def float_matrix_def h2_def F1_def acc
          jm scaled_def)
  qed
  have h2: "V g < length h2" "sa < length h2" "x < length h2" "h2 ! V g = IntMatrix M"
    "h2 ! x = IntArray (gray_acc M d (Suc j0 - 1))" "h2 ! sa = FloatMatrix F1" "length F1 = n"
    using Suc.prems ne by (simp_all add: h2_def acc_def F1_def)
  have k: "k = n - Suc j0" using Suc.hyps(2) by simp
  have b: "Suc j0 \<le> n" "1 \<le> Suc j0" using lt by simp_all
  note IH = Suc.hyps(1)[OF k b h2]
  have tk: "take (Suc j0) F1 = take j0 F @ [scaled (scale g) acc]"
    using lt Suc.prems(9) by (simp add: F1_def take_Suc_conv_app_nth)
  have ls: "[j0..<n] = j0 # [Suc j0..<n]" using lt by (simp add: upt_conv_Cons)
  have rhs: "h2[x := IntArray (gray_acc M d (n - 1)),
        sa := FloatMatrix (take (Suc j0) F1
                @ map (\<lambda>j. scaled (scale g) (gray_acc M d j)) [Suc j0..<n])]
     = h[x := IntArray (gray_acc M d (n - 1)),
        sa := FloatMatrix (take j0 F @ map (\<lambda>j. scaled (scale g) (gray_acc M d j)) [j0..<n])]"
    unfolding tk ls h2_def using ne(3) by (simp add: update4 acc_def)
  show ?case unfolding step IH rhs ..
qed


lemma generate_all_samples_effect:
  assumes inv: "gen_inv tbl (g, h)" and ad: "adequate g"
  shows "\<exists>extra. generate_all_samples (g, h)
     = Some (Inr (length h), (g, h @ FloatMatrix (bulk_rows (g, h)) # extra))"
proof -
  define M where "M = int_matrix h (V g)"
  define d where "d = n_dimensions g"
  define n where "n = nat (n_samples g)"
  define F0 :: "rat list list" where "F0 = replicate n (replicate d 0)"
  define h1 where "h1 = h @ [FloatMatrix F0]"
  define rows where "rows = map (\<lambda>j. scaled (scale g) (gray_acc M d j)) [0..<n]"
  have I: "1 \<le> n" "n \<le> 2 ^ L g" "V g < length h"
    "generate_V tbl (scale g) (L g) d = Inr M" "h ! V g = IntMatrix M"
    using inv ad by (auto simp: gen_inv_def M_def d_def n_def adequate_def)
  have dm: "dims M (Suc (L g)) d" using generate_V_spec(2)[OF I(4)] .
  have br: "bulk_rows (g, h) = rows" by (simp add: bulk_rows_def rows_def M_def d_def n_def)
  have unf: "generate_all_samples (g, h) =
     (case all_loop g (length h) [1..<n] (PyInt 0) h1 of
       None \<Rightarrow> None
     | Some (Inl e, h2) \<Rightarrow> Some (Inl e, (g, h2))
     | Some (Inr u, h2) \<Rightarrow> Some (Inr (length h), (g, h2)))"
    by (simp add: generate_all_samples_def alloc_def h1_def F0_def n_def d_def)
  show ?thesis
  proof (cases "n = 1")
    case True
    have "rows = F0" by (simp add: rows_def F0_def True scaled_zeros)
    then show ?thesis unfolding unf br using True by (simp add: h1_def)
  next
    case False
    with I(1) have n2: "2 \<le> n" by simp
    have p: "0 + 2 \<le> (2::nat) ^ L g" using order_trans[OF n2 I(2)] by simp
    note B = lszb_bound(1,2)[of 0] lszb_bound(3)[OF p]
    define row where "row = M ! lszb_nat 0"
    have rM: "lszb_nat 0 < length M" "length row = d"
      using B(3) dm by (simp_all add: dims_def row_def)
    have g1: "gray_acc M d 1 = row" using xor_zeros[OF rM(2)] by (simp add: row_def)
    define sa where "sa = length h"
    define x where "x = Suc (length h)"
    define F1 where "F1 = F0[1 := scaled (scale g) row]"
    define h2 where "h2 = h @ [FloatMatrix F1, IntArray row]"
    have mr: "matrix_row (int_matrix h1 (V g)) (int (lszb_nat 0)) = Inr row"
      using matrix_row_ok[of "int (lszb_nat 0)" M] rM(1) I(3,5)
      by (simp add: int_matrix_def row_def h1_def nth_append)
    have z: "map (\<lambda>v. 0 XOR v) row = row" by (simp add: map_idI)
    have ls: "[1..<n] = 1 # [2..<n]" using n2 by (simp add: upt_conv_Cons numeral_2_eq_2)
    have step: "all_loop g sa [1..<n] (PyInt 0) h1 = all_loop g sa [2..<n] (Ref x) h2"
      unfolding ls using B(1) mr
      by (simp add: alloc_def Let_def z h1_def h2_def sa_def x_def F1_def float_matrix_def
          int_array_def nth_append list_update_append scaled_def)
    have ne: "V g \<noteq> sa" "V g \<noteq> x" "sa \<noteq> x" using I(3) by (simp_all add: sa_def x_def)
    have pre: "2 \<le> n" "1 \<le> (2::nat)" "V g < length h2" "sa < length h2" "x < length h2"
      "h2 ! V g = IntMatrix M" "h2 ! x = IntArray (gray_acc M d (2 - 1))"
      "h2 ! sa = FloatMatrix F1" "length F1 = n"
      using n2 I(3,5) g1 by (simp_all add: h2_def sa_def x_def nth_append F1_def F0_def)
    note R = all_loop_ref[OF dm I(2) ne pre]
    have tk: "take 2 F1 = [replicate d 0, scaled (scale g) row]"
    proof -
      from n2 obtain k where k: "n = Suc (Suc k)" by (metis add_2_eq_Suc le_iff_add)
      show ?thesis by (simp add: F1_def F0_def k numeral_2_eq_2)
    qed
    have rw: "rows = [replicate d 0, scaled (scale g) row]
        @ map (\<lambda>j. scaled (scale g) (gray_acc M d j)) [2..<n]"
    proof -
      have "[0..<n] = 0 # 1 # [2..<n]" using n2 by (simp add: upt_conv_Cons numeral_2_eq_2)
      then show ?thesis using g1 by (simp add: rows_def scaled_zeros)
    qed
    have fin: "h2[x := IntArray (gray_acc M d (n - 1)),
        sa := FloatMatrix (take 2 F1 @ map (\<lambda>j. scaled (scale g) (gray_acc M d j)) [2..<n])]
      = h @ [FloatMatrix rows, IntArray (gray_acc M d (n - 1))]"
      unfolding tk rw[symmetric] by (simp add: h2_def x_def sa_def list_update_append)
    show ?thesis
      unfolding unf br sa_def[symmetric] step R fin by simp
  qed
qed

text \<open>
  The frame of the bulk loop, whatever \<open>V\<close> holds: the loop returns (with a matrix or an
  \<open>IndexError\<close>) and writes only to the arrays allocated since the call began.
\<close>

lemma all_loop_frame:
  "\<forall>j\<in>set js. 1 \<le> j \<Longrightarrow> N \<le> sa \<Longrightarrow> N \<le> length h \<Longrightarrow>
   (case X of PyInt v \<Rightarrow> True | Ref x \<Rightarrow> N \<le> x) \<Longrightarrow>
   \<exists>r h'. all_loop g sa js X h = Some (r, h') \<and> take N h' = take N h
      \<and> (r = Inr () \<or> r = Inl IndexError)"
proof (induction js arbitrary: X h)
  case Nil
  then show ?case by simp
next
  case (Cons j js)
  define k where "k = j - 1"
  have jk: "int j - 1 = int k" using Cons.prems(1) by (simp add: k_def)
  have idx: "index_of_least_significant_zero_bit (int j - 1) = Some (int (lszb_nat k))"
    unfolding jk by (rule lszb_bound(1))
  show ?case
  proof (cases "matrix_row (int_matrix h (V g)) (int (lszb_nat k))")
    case (Inl e)
    then have "e = IndexError" by (auto simp: matrix_row_def Let_def split: if_splits)
    then show ?thesis using idx Inl by simp
  next
    case (Inr row)
    obtain x h1 where ix: "ixor X row h = (x, h1)" by (cases "ixor X row h")
    have p: "N \<le> x \<and> N \<le> length h1 \<and> take N h1 = take N h"
    proof (cases X)
      case (PyInt v)
      then show ?thesis using ix Cons.prems(3) by (auto simp: alloc_def)
    next
      case (Ref a)
      then show ?thesis using ix Cons.prems(3,4) by auto
    qed
    define h2 where "h2 = h1[sa := FloatMatrix ((float_matrix h1 sa)
                          [j := map (sample_value (scale g)) (int_array h1 x)])]"
    have h2: "N \<le> length h2" "take N h2 = take N h"
      using p Cons.prems(2) by (simp_all add: h2_def)
    have rest: "\<forall>j\<in>set js. 1 \<le> j" using Cons.prems(1) by simp
    have X': "case Ref x of PyInt v \<Rightarrow> True | Ref x \<Rightarrow> N \<le> x" using p by simp
    from Cons.IH[OF rest Cons.prems(2) h2(1) X']
    obtain r h' where r: "all_loop g sa js (Ref x) h2 = Some (r, h')" "take N h' = take N h2"
      "r = Inr () \<or> r = Inl IndexError"
      by blast
    have "all_loop g sa (j # js) X h = all_loop g sa js (Ref x) h2"
      using idx Inr ix by (simp add: h2_def)
    then show ?thesis using r h2(2) by simp
  qed
qed

lemma generate_all_samples_returns:
  assumes inv: "gen_inv tbl (g, h)"
  shows "\<exists>r e. generate_all_samples (g, h) = Some (r, (g, h @ e))
     \<and> (r = Inr (length h) \<or> r = Inl IndexError)"
proof -
  define F0 :: "rat list list" where
    "F0 = replicate (nat (n_samples g)) (replicate (n_dimensions g) 0)"
  define h1 where "h1 = h @ [FloatMatrix F0]"
  have unf: "generate_all_samples (g, h) =
     (case all_loop g (length h) [1..<nat (n_samples g)] (PyInt 0) h1 of
       None \<Rightarrow> None
     | Some (Inl e, h2) \<Rightarrow> Some (Inl e, (g, h2))
     | Some (Inr u, h2) \<Rightarrow> Some (Inr (length h), (g, h2)))"
    by (simp add: generate_all_samples_def alloc_def h1_def F0_def)
  have a: "\<forall>j\<in>set [1..<nat (n_samples g)]. 1 \<le> j" "length h \<le> length h"
    "length h \<le> length h1" "case PyInt 0 of PyInt v \<Rightarrow> True | Ref x \<Rightarrow> length h \<le> x"
    by (simp_all add: h1_def)
  from all_loop_frame[OF a, of g]
  obtain r h' where r: "all_loop g (length h) [1..<nat (n_samples g)] (PyInt 0) h1 = Some (r, h')"
    "take (length h) h' = take (length h) h1" "r = Inr () \<or> r = Inl IndexError"
    by blast
  have "take (length h) h' = h" using r(2) by (simp add: h1_def)
  then have "h' = h @ drop (length h) h'" by (metis append_take_drop_id)
  then obtain e where e: "h' = h @ e" by blast
  show ?thesis unfolding unf r(1) e using r(3) by auto
qed
section \<open>Construction, the advance protocol and the bulk producer\<close>

lemma reachable_inv: "reachable tbl s \<Longrightarrow> gen_inv tbl s"
proof (induction rule: reachable.induct)
  case (reachable_init l n d sc h s)
  then show ?case using py_init_spec(1)[of tbl l n d sc h "fst s" "snd s"] by simp
next
  case (reachable_next s r s')
  then show ?case using py_next_step[of tbl "fst s" "snd s"] by auto
next
  case (reachable_bulk s r s')
  then show ?case
    using generate_all_samples_returns[of tbl "fst s" "snd s"] gen_inv_append by auto
qed




text \<open>
  C1. Collecting the outputs of \<open>n_samples\<close> calls of \<open>__next__\<close> on a fresh generator does not
  give the matrix of \<open>generate_all_samples\<close>: the first output is the accumulator \<open>self.Y\<close>
  itself, which the later calls overwrite. For \<open>SobolSample(2, 1)\<close>, whatever the table, the
  collected rows are \<open>[2^30]\<close> and \<open>[0.5]\<close>, the bulk rows \<open>[0]\<close> and \<open>[0.5]\<close>. (The constructor
  computes \<open>L = 1\<close> for \<open>n_samples = 2\<close>: \<open>log(2) / log(2)\<close> is \<open>1.0\<close>.)
\<close>

theorem sequential_first_row_aliases_accumulator:
  "sequential_matrix directions 1 2 1 31 = Some (Inr [Inr [1073741824], Inr [1 / 2]])
   \<and> bulk_matrix directions 1 2 1 31 = Some (Inr [[0], [1 / 2]])"
proof -
  define S0 where "S0 =
    (\<lparr>n_samples = 2, n_dimensions = 1, scale = 31, L = 1, current = 0, Y = 0, V = 1\<rparr>,
     [IntArray [0], IntMatrix [[0], [1073741824]]])"
  have v: "generate_V directions 31 1 1 = Inr [[0], [1073741824]]"
    by (simp add: generate_V_def set_cell_def)
  have i: "py_init directions 1 2 1 31 [] = Inr S0"
    unfolding py_init_def Let_def v alloc_def S0_def by simp
  have c: "calls 2 S0 = Some ([Inr 0, Inr 2],
      (\<lparr>n_samples = 2, n_dimensions = 1, scale = 31, L = 1, current = 2, Y = 0, V = 1\<rparr>,
       [IntArray [1073741824], IntMatrix [[0], [1073741824]], FloatArray [1 / 2]]))"
    unfolding S0_def by code_simp
  have b: "generate_all_samples S0 = Some (Inr 2,
      (\<lparr>n_samples = 2, n_dimensions = 1, scale = 31, L = 1, current = 0, Y = 0, V = 1\<rparr>,
       [IntArray [0], IntMatrix [[0], [1073741824]], FloatMatrix [[0], [1 / 2]],
        IntArray [1073741824]]))"
    unfolding S0_def by code_simp
  have n: "nat 2 = 2" by simp
  show ?thesis
    unfolding sequential_matrix_def bulk_matrix_def i n
    by (simp add: c b read_array_def read_matrix_def)
qed

text \<open>
  Read at the moment each call returns, the outputs of \<open>__next__\<close> are the rows of the bulk
  matrix.
\<close>

lemma snapshots_eq_bulk:
  assumes "py_init directions l n d sc h0 = Inr s0" and "nat n \<le> 2 ^ l"
  shows "\<exists>a g h s. generate_all_samples s0 = Some (Inr a, (g, h))
     \<and> snapshots (nat n) s0 = Some (map Inr (read_matrix h a), s)"
proof -
  obtain g h where s0: "s0 = (g, h)" by (cases s0)
  note P = py_init_spec[OF assms(1)[unfolded s0]]
  have ad: "adequate g" using assms(2) P(3,9) by (simp add: adequate_def)
  from generate_all_samples_effect[OF P(1) ad] obtain extra where
    b: "generate_all_samples (g, h)
     = Some (Inr (length h), (g, h @ FloatMatrix (bulk_rows (g, h)) # extra))"
    by blast
  have rm: "read_matrix (h @ FloatMatrix (bulk_rows (g, h)) # extra) (length h) = bulk_rows (g, h)"
    by (simp add: read_matrix_def)
  from snapshots_spec[OF P(1) ad, of "nat n"] obtain rs s' where
    sn: "snapshots (nat n) (g, h) = Some (rs, s')" "length rs = nat n"
    "\<forall>i<nat n. rs ! i = expected (g, h) (nat (current g) + i)"
    by blast
  have "rs = map Inr (bulk_rows (g, h))"
    by (rule nth_equalityI)
      (use sn(2,3) P(2,3) in \<open>simp_all add: bulk_rows_def expected_def\<close>)
  then show ?thesis unfolding s0 using b rm sn(1) by simp
qed

text \<open>
  C8. \<open>generate_all_samples\<close> returns on every reachable state, leaves the generator record
  (\<open>n_samples\<close>, \<open>n_dimensions\<close>, \<open>scale\<close>, \<open>current\<close> and the references \<open>Y\<close>, \<open>V\<close>) as it
  was, and changes no array that existed before the call, in particular not \<open>Y\<close> and \<open>V\<close>.
  The call returns the matrix or raises \<open>IndexError\<close>, and the frame holds in both cases;
  when \<open>L\<close> suffices for \<open>n_samples\<close> it returns the matrix.
\<close>

theorem generate_all_samples_frame:
  assumes "reachable directions (g, h)"
  shows "\<exists>r h'. generate_all_samples (g, h) = Some (r, (g, h'))
     \<and> take (length h) h' = h \<and> Y g < length h \<and> V g < length h
     \<and> h' ! Y g = h ! Y g \<and> h' ! V g = h ! V g
     \<and> ((\<exists>a. r = Inr a) \<or> r = Inl IndexError)
     \<and> (adequate g \<longrightarrow> (\<exists>a. r = Inr a))"
proof -
  note I = reachable_inv[OF assms]
  have a: "Y g < length h" "V g < length h" using I by (simp_all add: gen_inv_def)
  from generate_all_samples_returns[OF I] obtain r e where
    r: "generate_all_samples (g, h) = Some (r, (g, h @ e))"
    and k: "r = Inr (length h) \<or> r = Inl IndexError"
    by blast
  have "adequate g \<longrightarrow> (\<exists>a. r = Inr a)"
  proof
    assume "adequate g"
    from generate_all_samples_effect[OF I this] r show "\<exists>a. r = Inr a" by auto
  qed
  moreover have "(\<exists>a. r = Inr a) \<or> r = Inl IndexError" using k by blast
  ultimately show ?thesis using a r by (simp add: nth_append)
qed

theorem generate_all_samples_frame_witness:
  "reachable [[0, 1]]
     (\<lparr>n_samples = 2, n_dimensions = 2, scale = 31, L = 1, current = 0, Y = 0, V = 1\<rparr>,
      [IntArray [0, 0], IntMatrix [[0, 0], [1073741824, 1073741824]]])
   \<and> adequate \<lparr>n_samples = 2, n_dimensions = 2, scale = 31, L = 1, current = 0, Y = 0, V = 1\<rparr>
   \<and> (\<exists>a h'. generate_all_samples
        (\<lparr>n_samples = 2, n_dimensions = 2, scale = 31, L = 1, current = 0, Y = 0, V = 1\<rparr>,
         [IntArray [0, 0], IntMatrix [[0, 0], [1073741824, 1073741824]]])
       = Some (Inr a,
          (\<lparr>n_samples = 2, n_dimensions = 2, scale = 31, L = 1, current = 0, Y = 0, V = 1\<rparr>, h'))
       \<and> take 2 h' = [IntArray [0, 0], IntMatrix [[0, 0], [1073741824, 1073741824]]])"
proof -
  define g0 where
    "g0 = \<lparr>n_samples = 2, n_dimensions = 2, scale = 31, L = 1, current = 0, Y = 0, V = 1\<rparr>"
  define h0 where "h0 = [IntArray [0, 0], IntMatrix [[0, 0], [1073741824, 1073741824]]]"
  have i: "py_init [[0, 1]] 1 2 2 31 [] = Inr (g0, h0)"
    unfolding g0_def h0_def by code_simp
  have r: "reachable [[0, 1]] (g0, h0)"
    by (rule reachable_init[OF i])
  have ad: "adequate g0" by (simp add: adequate_def g0_def)
  from generate_all_samples_frame[OF r] ad obtain a h' where
    f: "generate_all_samples (g0, h0) = Some (Inr a, (g0, h'))"
    "take (length h0) h' = h0"
    by blast
  from f(2) have "take 2 h' = h0" by (simp add: h0_def numeral_2_eq_2)
  with f(1) r ad show ?thesis unfolding g0_def h0_def by blast
qed


text \<open>
  C10, as stated, fails: the loop terminates on negative arguments other than \<open>-1\<close>, for
  instance on \<open>-2\<close>, whose lowest bit is 0.
\<close>

theorem lszb_terminates_on_minus_two:
  "index_of_least_significant_zero_bit (- 2) = Some 1"
  by (simp add: index_of_least_significant_zero_bit_def lszb_loop_even)

lemma generate_sample_fresh_diverges:
  assumes "py_init directions l n d sc h0 = Inr s0"
  shows "generate_sample s0 = None"
proof -
  obtain g h where s0: "s0 = (g, h)" by (cases s0)
  note P = py_init_spec[OF assms[unfolded s0]]
  have "generate_V directions (scale g) (L g) (n_dimensions g) = Inr (int_matrix h (V g))"
    using P(1) by (simp add: gen_inv_def)
  from generate_V_spec(1)[OF this] have "[0..<n_dimensions g] = 0 # [1..<n_dimensions g]"
    by (simp add: upt_conv_Cons)
  then show ?thesis
    unfolding s0
    by (simp add: generate_sample_def alloc_def P(2) index_of_least_significant_zero_bit_def
        lszb_loop_minus1)
qed

text \<open>
  C10, amended. The loop runs forever exactly on the argument \<open>-1\<close>. In every reachable state
  a call of \<open>__next__\<close> returns, and where it reaches \<open>generate_sample\<close> the argument
  \<open>current - 1\<close> is non-negative. \<open>generate_sample\<close> called directly on a fresh generator
  passes \<open>-1\<close> and never returns.
\<close>

theorem lszb_diverges_exactly_at_minus_one:
  "(index_of_least_significant_zero_bit v = None \<longleftrightarrow> v = - 1)
   \<and> (reachable directions (g, h) \<longrightarrow>
        (\<exists>r. py_next (g, h) = Some r)
        \<and> (current g \<le> n_samples g - 1 \<and> current g \<noteq> 0 \<longrightarrow> 0 \<le> current g - 1))
   \<and> (py_init directions l n d sc h0 = Inr s0 \<longrightarrow> generate_sample s0 = None)"
proof -
  have "index_of_least_significant_zero_bit v = None \<longleftrightarrow> v = - 1"
  proof
    assume "index_of_least_significant_zero_bit v = None"
    then show "v = - 1"
      using lszb_loop_terminates[of v 1]
      by (auto simp: index_of_least_significant_zero_bit_def)
  next
    assume "v = - 1"
    then show "index_of_least_significant_zero_bit v = None"
      by (simp add: index_of_least_significant_zero_bit_def lszb_loop_minus1)
  qed
  moreover have "reachable directions (g, h) \<longrightarrow>
        (\<exists>r. py_next (g, h) = Some r)
        \<and> (current g \<le> n_samples g - 1 \<and> current g \<noteq> 0 \<longrightarrow> 0 \<le> current g - 1)"
  proof
    assume "reachable directions (g, h)"
    then have I: "gen_inv directions (g, h)" by (rule reachable_inv)
    then have "0 \<le> current g" by (simp add: gen_inv_def)
    moreover have "\<exists>r. py_next (g, h) = Some r" using py_next_step[OF I] by blast
    ultimately show "(\<exists>r. py_next (g, h) = Some r)
        \<and> (current g \<le> n_samples g - 1 \<and> current g \<noteq> 0 \<longrightarrow> 0 \<le> current g - 1)"
      by simp
  qed
  moreover have "py_init directions l n d sc h0 = Inr s0 \<longrightarrow> generate_sample s0 = None"
    using generate_sample_fresh_diverges by blast
  ultimately show ?thesis by blast
qed

theorem lszb_diverges_exactly_at_minus_one_witness:
  "index_of_least_significant_zero_bit (- 1) = None
   \<and> reachable [[0, 1]]
       (\<lparr>n_samples = 2, n_dimensions = 2, scale = 31, L = 1, current = 1, Y = 0, V = 1\<rparr>,
        [IntArray [0, 0], IntMatrix [[0, 0], [1073741824, 1073741824]]])
   \<and> (\<exists>r. py_next
       (\<lparr>n_samples = 2, n_dimensions = 2, scale = 31, L = 1, current = 1, Y = 0, V = 1\<rparr>,
        [IntArray [0, 0], IntMatrix [[0, 0], [1073741824, 1073741824]]]) = Some r)
   \<and> py_init [[0, 1]] 1 2 2 31 [] =
     Inr (\<lparr>n_samples = 2, n_dimensions = 2, scale = 31, L = 1, current = 0, Y = 0, V = 1\<rparr>,
          [IntArray [0, 0], IntMatrix [[0, 0], [1073741824, 1073741824]]])
   \<and> generate_sample
       (\<lparr>n_samples = 2, n_dimensions = 2, scale = 31, L = 1, current = 0, Y = 0, V = 1\<rparr>,
        [IntArray [0, 0], IntMatrix [[0, 0], [1073741824, 1073741824]]]) = None"
proof -
  define S0 where "S0 =
    (\<lparr>n_samples = 2, n_dimensions = 2, scale = 31, L = 1, current = 0, Y = 0, V = 1\<rparr>,
     [IntArray [0, 0], IntMatrix [[0, 0], [1073741824, 1073741824]]])"
  define g1 where
    "g1 = \<lparr>n_samples = 2, n_dimensions = 2, scale = 31, L = 1, current = 1, Y = 0, V = 1\<rparr>"
  define h1 where "h1 = [IntArray [0, 0], IntMatrix [[0, 0], [1073741824, 1073741824]]]"
  have i: "py_init [[0, 1]] 1 2 2 31 [] = Inr S0" unfolding S0_def by code_simp
  have n: "py_next S0 = Some (Inr 0, (g1, h1))" unfolding S0_def g1_def h1_def by code_simp
  have r: "reachable [[0, 1]] (g1, h1)"
    by (rule reachable_next[OF reachable_init[OF i] n])
  note T = lszb_diverges_exactly_at_minus_one[of "- 1" "[[0, 1]]" g1 h1 1 2 2 31 "[]" S0]
  from T have "index_of_least_significant_zero_bit (- 1) = None" by simp
  moreover from T r have "\<exists>r. py_next (g1, h1) = Some r" by blast
  moreover from T i have "generate_sample S0 = None" by blast
  ultimately show ?thesis using r i unfolding S0_def g1_def h1_def by blast
qed






text \<open>
  The computed \<open>L\<close> need not be the exact ceiling. \<open>math.log(2**31) / math.log(2)\<close> is
  \<open>31.000000000000004\<close>, so the constructor computes \<open>L = 32\<close> for \<open>n_samples = 2^31\<close> and refuses
  the default \<open>scale = 31\<close>, although \<open>\<lceil>log\<^sub>2 n\<rceil> = 31\<close>.
\<close>

lemma py_init_rounded_quotient:
  "py_init [] 32 (2 ^ 31) 1 31 [] = Inl InsufficientBits \<and> ceillog2 (2 ^ 31) = 31"
proof -
  have "py_init [] 32 (2 ^ 31) 1 31 [] = Inl InsufficientBits" by (simp add: py_init_def)
  moreover have "ceillog2 (2 ^ 31) = 31" by (rule ceillog2_2_power)
  ultimately show ?thesis by blast
qed

section \<open>Value ranges\<close>

subsection \<open>The entries of \<open>V\<close> are 64-bit integers\<close>

lemma in_int64_iff: "in_int64 x \<longleftrightarrow> signed_take_bit 63 x = x"
  unfolding in_int64_def signed_take_bit_int_eq_self_iff ..

lemma in_int64_shl64: "in_int64 (shl64 x k)"
  unfolding in_int64_def shl64_def
  by (intro conjI signed_take_bit_int_greater_eq_minus_exp signed_take_bit_int_less_exp)

lemma signed_bits:
  "signed_take_bit n x = x \<longleftrightarrow> (\<forall>i\<ge>n. bit x i = bit x n)" for x :: int
proof
  assume e: "signed_take_bit n x = x"
  show "\<forall>i\<ge>n. bit x i = bit x n"
  proof (intro allI impI)
    fix i :: nat assume "n \<le> i"
    then have "min n i = n" by simp
    then have "bit (signed_take_bit n x) i = bit x n"
      unfolding bit_signed_take_bit_iff by simp
    then show "bit x i = bit x n" by (simp only: e)
  qed
next
  assume a: "\<forall>i\<ge>n. bit x i = bit x n"
  show "signed_take_bit n x = x"
  proof (rule bit_eqI)
    fix i
    show "bit (signed_take_bit n x) i = bit x i"
    proof (cases "n \<le> i")
      case True
      then have "min n i = n" by simp
      then have "bit (signed_take_bit n x) i = bit x n"
        unfolding bit_signed_take_bit_iff by simp
      moreover have "bit x i = bit x n" using a True by blast
      ultimately show ?thesis by simp
    next
      case False
      then have "min n i = i" by simp
      then show ?thesis unfolding bit_signed_take_bit_iff by simp
    qed
  qed
qed

lemma signed_xor:
  fixes x y :: int
  assumes "signed_take_bit n x = x" "signed_take_bit n y = y"
  shows "signed_take_bit n (x XOR y) = x XOR y"
proof -
  have a: "\<And>i. n \<le> i \<Longrightarrow> bit x i = bit x n" "\<And>i. n \<le> i \<Longrightarrow> bit y i = bit y n"
    using assms unfolding signed_bits by blast+
  have "\<forall>i\<ge>n. bit (x XOR y) i = bit (x XOR y) n"
  proof (intro allI impI)
    fix i :: nat assume i: "n \<le> i"
    show "bit (x XOR y) i = bit (x XOR y) n"
      unfolding bit_xor_iff a(1)[OF i] a(2)[OF i] ..
  qed
  then show ?thesis unfolding signed_bits .
qed

lemma signed_drop_bit:
  fixes x :: int
  assumes "signed_take_bit n x = x"
  shows "signed_take_bit n (drop_bit s x) = drop_bit s x"
proof -
  have a: "\<And>i. n \<le> i \<Longrightarrow> bit x i = bit x n"
    using assms unfolding signed_bits by blast
  have "\<forall>i\<ge>n. bit (drop_bit s x) i = bit (drop_bit s x) n"
  proof (intro allI impI)
    fix i :: nat assume i: "n \<le> i"
    have "bit x (s + i) = bit x n" by (rule a) (use i in simp)
    moreover have "bit x (s + n) = bit x n" by (rule a) simp
    ultimately show "bit (drop_bit s x) i = bit (drop_bit s x) n"
      unfolding bit_drop_bit_eq by simp
  qed
  then show ?thesis unfolding signed_bits .
qed

lemma in_int64_xor: "in_int64 x \<Longrightarrow> in_int64 y \<Longrightarrow> in_int64 (x XOR y)"
  unfolding in_int64_iff by (rule signed_xor)

lemma in_int64_drop_bit: "in_int64 x \<Longrightarrow> in_int64 (drop_bit s x)"
  unfolding in_int64_iff by (rule signed_drop_bit)

lemma fold_preserves:
  "P a \<Longrightarrow> (\<And>k acc. k \<in> set ks \<Longrightarrow> P acc \<Longrightarrow> P (f k acc)) \<Longrightarrow> P (fold f ks a)"
  by (induction ks arbitrary: a) simp_all

text \<open>
  A property of integers that holds of 0, of the entries of column 0 and of the seeds, and
  that XOR and \<open>>>\<close> preserve, holds of every entry of \<open>V\<close>.
\<close>

lemma generate_V_cells:
  assumes gv: "generate_V tbl sc l d = Inr M"
    and z: "P 0"
    and x: "\<And>x y. P x \<Longrightarrow> P y \<Longrightarrow> P (x XOR y)"
    and dr: "\<And>x s. P x \<Longrightarrow> P (drop_bit s x)"
    and c0: "\<And>j. 1 \<le> j \<Longrightarrow> j \<le> l \<Longrightarrow> P (2 ^ nat (sc - int j))"
    and seed: "\<And>i j. i < d - 1 \<Longrightarrow> 1 \<le> j \<Longrightarrow> j \<le> l \<Longrightarrow> j \<le> length (tbl ! i) - 1 \<Longrightarrow>
        P (shl64 (tbl ! i ! j) (nat (sc - int j)))"
  shows "j \<le> l \<Longrightarrow> i < d \<Longrightarrow> P (M ! j ! i)"
proof (induction j rule: less_induct)
  case (less j)
  note S = generate_V_spec[OF gv]
  note E = S(4)[OF less.prems]
  have pb: "\<And>b y. P y \<Longrightarrow> P (of_bool b * y)"
  proof -
    fix b y assume "P y"
    then show "P (of_bool b * y)" using z by (cases b) simp_all
  qed
  show ?case
  proof (cases "j = 0")
    case True
    then show ?thesis using E z by simp
  next
    case j0: False
    show ?thesis
    proof (cases "i = 0")
      case True
      have "P (2 ^ nat (sc - int j))" by (rule c0) (use j0 less.prems(1) in simp_all)
      then show ?thesis using E j0 True by simp
    next
      case i0: False
      define m where "m = tbl ! (i - 1)"
      define s where "s = length m - 1"
      have i1: "i - 1 < d - 1" using i0 less.prems(2) by simp
      have val: "M ! j ! i = column_value M m sc i j" using E j0 i0 by (simp add: m_def)
      show ?thesis
      proof (cases "j \<le> s")
        case True
        have "P (shl64 (m ! j) (nat (sc - int j)))"
          unfolding m_def
          by (rule seed[OF i1]) (use j0 less.prems(1) True in \<open>simp_all add: s_def m_def\<close>)
        then show ?thesis using val True by (simp add: column_value_def s_def)
      next
        case False
        then have v: "M ! j ! i = recurrence M m s i j"
          using val by (simp add: column_value_def s_def)
        show ?thesis
        proof (cases "s = 0")
          case True
          then show ?thesis using v z by (simp add: recurrence_zero)
        next
          case s0: False
          have prev: "\<And>k. 1 \<le> k \<Longrightarrow> k \<le> s \<Longrightarrow> P (M ! (j - k) ! i)"
            using less.IH[of "j - _"] less.prems False by simp
          have init: "P (M ! (j - s) ! i XOR drop_bit s (M ! (j - s) ! i))"
            using prev[of s] s0 by (simp add: x dr)
          have "P (recurrence M m s i j)"
            unfolding recurrence_def
            by (rule fold_preserves[where P = P, OF init]) (simp add: x pb prev)
          then show ?thesis using v by simp
        qed
      qed
    qed
  qed
qed

lemma generate_V_int64:
  assumes gv: "generate_V tbl sc l d = Inr M" and ji: "j \<le> l" "i < d"
  shows "in_int64 (M ! j ! i)"
proof (rule generate_V_cells[where P = in_int64, OF gv _ _ _ _ _ ji])
  show "in_int64 0" by (simp add: in_int64_def)
  show "\<And>x y. in_int64 x \<Longrightarrow> in_int64 y \<Longrightarrow> in_int64 (x XOR y)" by (rule in_int64_xor)
  show "\<And>x s. in_int64 x \<Longrightarrow> in_int64 (drop_bit s x)" by (rule in_int64_drop_bit)
  show "\<And>i j. i < d - 1 \<Longrightarrow> 1 \<le> j \<Longrightarrow> j \<le> l \<Longrightarrow> j \<le> length (tbl ! i) - 1 \<Longrightarrow>
        in_int64 (shl64 (tbl ! i ! j) (nat (sc - int j)))"
    by (rule in_int64_shl64)
  show "\<And>j. 1 \<le> j \<Longrightarrow> j \<le> l \<Longrightarrow> in_int64 (2 ^ nat (sc - int j))"
  proof -
    fix j :: nat assume j: "1 \<le> j" "j \<le> l"
    then have b: "int l \<le> sc" "sc \<le> 63" using generate_V_spec(5)[OF gv] by auto
    have "nat (sc - int j) < 63" using b j by simp
    then have "(2::int) ^ nat (sc - int j) < 2 ^ 63" by (rule power_strict_increasing) simp
    moreover have "- (2 ^ 63) \<le> (2::int) ^ nat (sc - int j)"
      by (rule order_trans[of _ 0]) simp_all
    ultimately show "in_int64 (2 ^ nat (sc - int j))" unfolding in_int64_def by blast
  qed
qed

subsection \<open>The fixed-point range\<close>









lemma adequate_rows:
  assumes "adequate g" "j + 1 \<le> nat (n_samples g)"
  shows "\<forall>j'<j. lszb_nat j' \<le> L g"
proof (intro allI impI)
  fix j' assume "j' < j"
  then have "j' + 2 \<le> nat (n_samples g)" using assms(2) by simp
  moreover have "nat (n_samples g) \<le> 2 ^ L g" using assms(1) unfolding adequate_def .
  ultimately have "j' + 2 \<le> 2 ^ L g" by (rule order_trans)
  then show "lszb_nat j' \<le> L g" by (rule lszb_bound(3))
qed









section \<open>The first samples of dimension 0\<close>

text \<open>
  C2, as stated, fails: the samples follow the Gray-code order, so samples 2 and 3 of
  dimension 0 are \<open>0.75\<close> and \<open>0.25\<close>, from both producers (for \<open>n_samples = 4\<close> the constructor
  computes \<open>L = 2\<close>: \<open>log(4) / log(2)\<close> is \<open>2.0\<close>).
\<close>

theorem gray_code_order_of_dimension_0:
  "bulk_matrix [] 2 4 1 31 = Some (Inr [[0], [1 / 2], [3 / 4], [1 / 4]])
   \<and> snapshot_matrix [] 2 4 1 31 = Some (Inr [Inr [0], Inr [1 / 2], Inr [3 / 4], Inr [1 / 4]])"
  by code_simp

lemma lszb_nat_small:
  "lszb_nat 0 = 1" "lszb_nat (Suc 0) = 2" "lszb_nat (Suc (Suc 0)) = 1"
  by (simp_all add: lszb_nat_def index_of_least_significant_zero_bit_def
      lszb_loop_odd lszb_loop_even)

lemma gray_acc_column_0:
  assumes dm: "dims M (Suc l) d" and d: "1 \<le> d" and l2: "2 \<le> l"
  shows "gray_acc M d 0 ! 0 = 0"
    "gray_acc M d 1 ! 0 = M ! 1 ! 0"
    "gray_acc M d 2 ! 0 = M ! 1 ! 0 XOR M ! 2 ! 0"
    "gray_acc M d 3 ! 0 = (M ! 1 ! 0 XOR M ! 2 ! 0) XOR M ! 1 ! 0"
proof -
  have r: "length (M ! 1) = d" "length (M ! 2) = d"
    using dm l2 by (simp_all add: dims_def)
  have b: "\<forall>j'<0. lszb_nat j' \<le> l" "\<forall>j'<1. lszb_nat j' \<le> l" "\<forall>j'<2. lszb_nat j' \<le> l"
    using l2 by (simp_all add: lszb_nat_small less_Suc_eq numeral_2_eq_2)
  note la = gray_acc_length[OF dm b(1)] gray_acc_length[OF dm b(2)] gray_acc_length[OF dm b(3)]
  show "gray_acc M d 0 ! 0 = 0" using d by simp
  have s: "gray_acc M d 1 = map2 (XOR) (gray_acc M d 0) (M ! 1)"
    "gray_acc M d 2 = map2 (XOR) (gray_acc M d 1) (M ! 2)"
    "gray_acc M d 3 = map2 (XOR) (gray_acc M d 2) (M ! 1)"
    using gray_acc.simps(2)[of M d 0] gray_acc.simps(2)[of M d 1] gray_acc.simps(2)[of M d 2]
    by (simp_all add: lszb_nat_small numeral_2_eq_2 numeral_3_eq_3)
  show 1: "gray_acc M d 1 ! 0 = M ! 1 ! 0" unfolding s(1) using d r by simp
  show 2: "gray_acc M d 2 ! 0 = M ! 1 ! 0 XOR M ! 2 ! 0"
    unfolding s(2) using d r la 1 by simp
  show "gray_acc M d 3 ! 0 = (M ! 1 ! 0 XOR M ! 2 ! 0) XOR M ! 1 ! 0"
    unfolding s(3) using d r la 2 by simp
qed


lemma list4: "length xs = 4 \<Longrightarrow> xs = [xs ! 0, xs ! 1, xs ! 2, xs ! 3]"
  by (rule nth_equalityI) (auto simp: less_Suc_eq numeral_eq_Suc)

text \<open>
  C2, amended. For a generator built with \<open>scale = 31\<close> and \<open>n_samples \<ge> 4\<close> (and \<open>L\<close> sufficient
  for \<open>n_samples\<close>, as it is whenever \<open>scale = 31\<close> is accepted), the first four samples of
  dimension 0, from the bulk producer and from \<open>__next__\<close> (each read as it is returned), are
  \<open>0, 0.5, 0.75, 0.25\<close> in that order.
\<close>

theorem first_four_samples_of_dimension_0:
  assumes "py_init directions l n d 31 h0 = Inr s0" and "4 \<le> n" and "nat n \<le> 2 ^ l"
  shows "(\<exists>a g h. generate_all_samples s0 = Some (Inr a, (g, h))
           \<and> read_matrix h a ! 0 ! 0 = 0 \<and> read_matrix h a ! 1 ! 0 = 1 / 2
           \<and> read_matrix h a ! 2 ! 0 = 3 / 4 \<and> read_matrix h a ! 3 ! 0 = 1 / 4)
       \<and> (\<exists>x0 x1 x2 x3 s. snapshots 4 s0 = Some ([Inr x0, Inr x1, Inr x2, Inr x3], s)
           \<and> x0 ! 0 = 0 \<and> x1 ! 0 = 1 / 2 \<and> x2 ! 0 = 3 / 4 \<and> x3 ! 0 = 1 / 4)"
proof -
  obtain g h where s0: "s0 = (g, h)" by (cases s0)
  note P = py_init_spec[OF assms(1)[unfolded s0]]
  define M where "M = int_matrix h (V g)"
  define smp where "smp j = scaled 31 (gray_acc M d j)" for j
  have n4: "4 \<le> nat n" using assms(2) by simp
  have ad: "adequate g" using assms(3) P(3,9) by (simp add: adequate_def)
  have I: "generate_V directions 31 l d = Inr M"
    using P(1) by (simp add: gen_inv_def P(4,5,9) M_def)
  note S = generate_V_spec[OF I]
  have "(2::nat) ^ 2 \<le> 2 ^ l" using order_trans[OF n4 assms(3)] by simp
  then have l2: "2 \<le> l" by (rule power_le_imp_le_exp[rotated]) simp
  have d0: "0 < d" using S(1) by simp
  have m1: "M ! 1 ! 0 = 1073741824" using S(4)[of 1 0] l2 d0 by simp
  have m2: "M ! 2 ! 0 = 536870912" using S(4)[of 2 0] l2 d0 by simp
  note G = gray_acc_column_0[OF S(2) S(1) l2, unfolded m1 m2]
  have rows: "\<And>j. j + 1 \<le> nat n \<Longrightarrow> \<forall>j'<j. lszb_nat j' \<le> l"
    using adequate_rows[OF ad] P(3,9) by simp
  have b: "0 + 1 \<le> nat n" "1 + 1 \<le> nat n" "2 + 1 \<le> nat n" "3 + 1 \<le> nat n"
    using n4 by simp_all
  note la = gray_acc_length[OF S(2) rows[OF b(1)]] gray_acc_length[OF S(2) rows[OF b(2)]]
    gray_acc_length[OF S(2) rows[OF b(3)]] gray_acc_length[OF S(2) rows[OF b(4)]]
  have sv: "sample_value 31 0 = 0" "sample_value 31 1073741824 = 1 / 2"
    "sample_value 31 (1073741824 XOR 536870912) = 3 / 4"
    "sample_value 31 ((1073741824 XOR 536870912) XOR 1073741824) = 1 / 4"
    by (simp_all add: sample_value_def round53_small power_int_def)
  have v: "smp 0 ! 0 = 0" "smp 1 ! 0 = 1 / 2" "smp 2 ! 0 = 3 / 4" "smp 3 ! 0 = 1 / 4"
    unfolding smp_def scaled_def using la d0 G sv by simp_all
  have br: "\<And>j. j < nat n \<Longrightarrow> bulk_rows (g, h) ! j = smp j"
    by (simp add: bulk_rows_def smp_def P(3,4,5) M_def)
  have bulk: "\<exists>a g' h'. generate_all_samples s0 = Some (Inr a, (g', h'))
           \<and> read_matrix h' a ! 0 ! 0 = 0 \<and> read_matrix h' a ! 1 ! 0 = 1 / 2
           \<and> read_matrix h' a ! 2 ! 0 = 3 / 4 \<and> read_matrix h' a ! 3 ! 0 = 1 / 4"
  proof -
    from generate_all_samples_effect[OF P(1) ad] obtain extra where
      e: "generate_all_samples (g, h)
       = Some (Inr (length h), (g, h @ FloatMatrix (bulk_rows (g, h)) # extra))"
      by blast
    have rm: "read_matrix (h @ FloatMatrix (bulk_rows (g, h)) # extra) (length h)
        = bulk_rows (g, h)"
      by (simp add: read_matrix_def)
    have "bulk_rows (g, h) ! 0 ! 0 = 0" "bulk_rows (g, h) ! 1 ! 0 = 1 / 2"
      "bulk_rows (g, h) ! 2 ! 0 = 3 / 4" "bulk_rows (g, h) ! 3 ! 0 = 1 / 4"
      using br[of 0] br[of 1] br[of 2] br[of 3] n4 v by simp_all
    then show ?thesis unfolding s0 using e rm by simp
  qed
  have seq: "\<exists>x0 x1 x2 x3 s. snapshots 4 s0 = Some ([Inr x0, Inr x1, Inr x2, Inr x3], s)
           \<and> x0 ! 0 = 0 \<and> x1 ! 0 = 1 / 2 \<and> x2 ! 0 = 3 / 4 \<and> x3 ! 0 = 1 / 4"
  proof -
    from snapshots_spec[OF P(1) ad, of 4] obtain rs s' where
      sn: "snapshots 4 (g, h) = Some (rs, s')" "length rs = 4"
      "\<forall>i<4. rs ! i = expected (g, h) (nat (current g) + i)"
      by blast
    have ex: "\<And>i. i < 4 \<Longrightarrow> rs ! i = Inr (smp i)"
      using sn(3) n4 by (simp add: expected_def P(2,3,4,5) smp_def M_def)
    have "rs = [Inr (smp 0), Inr (smp 1), Inr (smp 2), Inr (smp 3)]"
      using list4[OF sn(2)] ex[of 0] ex[of 1] ex[of 2] ex[of 3] by simp
    then show ?thesis unfolding s0 using sn(1) v by blast
  qed
  from bulk seq show ?thesis by blast
qed

theorem first_four_samples_of_dimension_0_witness:
  "py_init [[0, 1]] 2 4 2 31 [] =
     Inr (\<lparr>n_samples = 4, n_dimensions = 2, scale = 31, L = 2, current = 0, Y = 0, V = 1\<rparr>,
          [IntArray [0, 0],
           IntMatrix [[0, 0], [1073741824, 1073741824], [536870912, 1610612736]]])
   \<and> (4::int) \<le> 4 \<and> nat 4 \<le> (2::nat) ^ 2
   \<and> (\<exists>x0 x1 x2 x3 s. snapshots 4
         (\<lparr>n_samples = 4, n_dimensions = 2, scale = 31, L = 2, current = 0, Y = 0, V = 1\<rparr>,
          [IntArray [0, 0],
           IntMatrix [[0, 0], [1073741824, 1073741824], [536870912, 1610612736]]])
         = Some ([Inr x0, Inr x1, Inr x2, Inr x3], s)
       \<and> x0 ! 0 = 0 \<and> x1 ! 0 = 1 / 2 \<and> x2 ! 0 = 3 / 4 \<and> x3 ! 0 = 1 / 4)"
proof -
  have i: "py_init [[0, 1]] 2 4 2 31 [] =
     Inr (\<lparr>n_samples = 4, n_dimensions = 2, scale = 31, L = 2, current = 0, Y = 0, V = 1\<rparr>,
          [IntArray [0, 0],
           IntMatrix [[0, 0], [1073741824, 1073741824], [536870912, 1610612736]]])"
    by code_simp
  have n: "(4::int) \<le> 4" "nat 4 \<le> (2::nat) ^ 2" by simp_all
  from first_four_samples_of_dimension_0[OF i n] i n show ?thesis by blast
qed
end
